theory Spec2Isabelle
  imports Complex_Main "HOL-Library.AList" "HOL-Library.Multiset"
begin

section \<open>Python values used by album\_gui.py\<close>

text \<open>
  Exceptions of the Python run time that the modelled code can raise. A function that can
  raise returns \<open>py_error + 'a\<close>, with \<open>Inl\<close> for the exception.
\<close>

datatype py_error = IndexError | KeyError | ValueError | AssertionError

definition py_len :: "'a list \<Rightarrow> int" where
  "py_len xs = int (length xs)"

text \<open>
  The position a subscript \<open>xs[i]\<close> denotes: negative subscripts count from the end,
  and a subscript outside \<open>-len .. len-1\<close> denotes none.
\<close>

definition py_pos :: "'a list \<Rightarrow> int \<Rightarrow> nat option" where
  "py_pos xs i =
     (let n = py_len xs; j = (if i < 0 then n + i else i)
      in if 0 \<le> j \<and> j < n then Some (nat j) else None)"

definition py_getitem :: "'a list \<Rightarrow> int \<Rightarrow> py_error + 'a" where
  "py_getitem xs i = (case py_pos xs i of None \<Rightarrow> Inl IndexError | Some j \<Rightarrow> Inr (xs ! j))"

text \<open>
  \<open>py_store xs i v\<close> is the list \<open>xs\<close> after the object at subscript \<open>i\<close>, which was
  read before and mutated in place, has become \<open>v\<close>.
\<close>

definition py_store :: "'a list \<Rightarrow> int \<Rightarrow> 'a \<Rightarrow> 'a list" where
  "py_store xs i v = (case py_pos xs i of None \<Rightarrow> xs | Some j \<Rightarrow> xs[j := v])"

text \<open>\<open>xs.index(x)\<close>: the first position of \<open>x\<close>; \<open>None\<close> stands for ValueError.\<close>

fun py_index :: "'a list \<Rightarrow> 'a \<Rightarrow> nat option" where
  "py_index [] x = None"
| "py_index (y # ys) x = (if y = x then Some 0 else map_option Suc (py_index ys x))"

text \<open>
  A \<open>dict\<close> is an association list in insertion order with distinct keys.
  \<open>d[k] = v\<close> is \<open>AList.update k v d\<close> (the value is replaced in place, a new key is
  appended); \<open>del d[k]\<close> raises KeyError when the key is absent.
\<close>

type_synonym ('k, 'v) dict = "('k \<times> 'v) list"

definition dict_del :: "('k, 'v) dict \<Rightarrow> 'k \<Rightarrow> py_error + ('k, 'v) dict" where
  "dict_del d k = (if k \<in> fst ` set d then Inr (AList.delete k d) else Inl KeyError)"

subsection \<open>Strings and integers\<close>

text \<open>
  \<open>str.strip()\<close> removes white space at both ends; on ASCII text the white space
  characters are the codes 9 to 13 and 28 to 32.
\<close>

definition py_isspace :: "char \<Rightarrow> bool" where
  "py_isspace c = (let n = (of_char c :: nat) in (9 \<le> n \<and> n \<le> 13) \<or> (28 \<le> n \<and> n \<le> 32))"

definition py_strip :: "string \<Rightarrow> string" where
  "py_strip s = rev (dropWhile py_isspace (rev (dropWhile py_isspace s)))"

text \<open>\<open>s.split(sep)\<close> for a separator of one character.\<close>

fun py_split :: "char \<Rightarrow> string \<Rightarrow> string list" where
  "py_split sep [] = [[]]"
| "py_split sep (c # cs) =
     (if c = sep then [] # py_split sep cs
      else (case py_split sep cs of
              [] \<Rightarrow> [[c]]
            | w # ws \<Rightarrow> (c # w) # ws))"

text \<open>
  \<open>int(s)\<close> for a string, base ten: white space around the number is dropped, a sign may
  come first, and single underscores may stand between digits. \<open>None\<close> stands for
  ValueError. Strings are ASCII here; digits of other scripts are not modelled.
\<close>

definition digit_of :: "char \<Rightarrow> nat option" where
  "digit_of c =
     (let n = (of_char c :: nat) in if 48 \<le> n \<and> n \<le> 57 then Some (n - 48) else None)"

definition digit_char :: "nat \<Rightarrow> char" where
  "digit_char d = ''0123456789'' ! d"

fun py_digits :: "string \<Rightarrow> nat \<Rightarrow> nat option" where
  "py_digits [] acc = Some acc"
| "py_digits [c] acc = map_option (\<lambda>d. 10 * acc + d) (digit_of c)"
| "py_digits (c # c' # cs) acc =
     (if c = CHR ''_''
      then (case digit_of c' of None \<Rightarrow> None | Some d \<Rightarrow> py_digits cs (10 * acc + d))
      else (case digit_of c of None \<Rightarrow> None | Some d \<Rightarrow> py_digits (c' # cs) (10 * acc + d)))"

definition py_nat_literal :: "string \<Rightarrow> nat option" where
  "py_nat_literal s =
     (case s of
        [] \<Rightarrow> None
      | c # cs \<Rightarrow> (case digit_of c of None \<Rightarrow> None | Some d \<Rightarrow> py_digits cs d))"

definition py_int :: "string \<Rightarrow> int option" where
  "py_int s =
     (case py_strip s of
        [] \<Rightarrow> None
      | c # cs \<Rightarrow>
          if c = CHR ''-'' then map_option (\<lambda>n. - int n) (py_nat_literal cs)
          else if c = CHR ''+'' then map_option int (py_nat_literal cs)
          else map_option int (py_nat_literal (c # cs)))"

text \<open>\<open>str(i)\<close> for an integer.\<close>

fun str_nat :: "nat \<Rightarrow> string" where
  "str_nat n = (if n < 10 then [digit_char n] else str_nat (n div 10) @ [digit_char (n mod 10)])"

declare str_nat.simps [simp del]

definition py_str :: "int \<Rightarrow> string" where
  "py_str i = (if i < 0 then CHR ''-'' # str_nat (nat (- i)) else str_nat (nat i))"

subsection \<open>The module random\<close>

text \<open>
  The generator is an oracle: an infinite sequence of draws, consumed from the front.
  \<open>randbelow n\<close> reduces the next draw modulo \<open>n\<close>. \<open>random.shuffle\<close> is the standard
  library's loop \<open>for i in reversed(range(1, len(x))): j = randbelow(i + 1); x[i], x[j] =
  x[j], x[i]\<close>; \<open>random.choice(seq)\<close> is \<open>seq[randbelow(len(seq))]\<close>; \<open>random.randint(a, b)\<close>
  is \<open>a + randbelow(b - a + 1)\<close>.
\<close>

type_synonym rng = "nat \<Rightarrow> nat"

definition randbelow :: "int \<Rightarrow> rng \<Rightarrow> nat \<times> rng" where
  "randbelow n g = (nat (int (g 0) mod n), \<lambda>i. g (Suc i))"

fun shuffle_from :: "nat \<Rightarrow> 'a list \<Rightarrow> rng \<Rightarrow> 'a list \<times> rng" where
  "shuffle_from 0 x g = (x, g)"
| "shuffle_from (Suc i) x g =
     (case randbelow (int (Suc i) + 1) g of
        (j, g') \<Rightarrow> shuffle_from i ((x[Suc i := x ! j])[j := x ! Suc i]) g')"

definition random_shuffle :: "'a list \<Rightarrow> rng \<Rightarrow> 'a list \<times> rng" where
  "random_shuffle x g = shuffle_from (length x - 1) x g"

definition random_choice :: "'a list \<Rightarrow> rng \<Rightarrow> 'a \<times> rng" where
  "random_choice seq g = (case randbelow (py_len seq) g of (j, g') \<Rightarrow> (seq ! j, g'))"

definition random_randint :: "int \<Rightarrow> int \<Rightarrow> rng \<Rightarrow> int \<times> rng" where
  "random_randint a b g = (case randbelow (b - a + 1) g of (j, g') \<Rightarrow> (a + int j, g'))"

text \<open>
  The slice \<open>xs[a:b]\<close>: both bounds are clipped to the list, negative bounds count from
  the end.
\<close>

definition py_slice :: "'a list \<Rightarrow> int \<Rightarrow> int \<Rightarrow> 'a list" where
  "py_slice xs a b =
     (let n = py_len xs;
          lo = (if a < 0 then max (a + n) 0 else min a n);
          hi = (if b < 0 then max (b + n) 0 else min b n)
      in take (nat (hi - lo)) (drop (nat lo) xs))"

section \<open>The partition tree and the window state\<close>

text \<open>
  Modelled from the spec: the class \<open>sa.Node\<close> of the module \<open>sa_advanced\<close> is not part of
  the sources. Section 3 of the specification and the constructor call in
  \<open>deserialize_tree\<close> give its fields: \<open>dir\<close>, \<open>t\<close>, \<open>leaf_id\<close>, \<open>locked\<close>, \<open>left\<close>,
  \<open>right\<close>. The split ratio \<open>t\<close> is a float that this program only stores and copies; its
  type is the parameter \<open>'r\<close>.
\<close>

datatype direction = Horizontal | Vertical

datatype 'r node =
  Node "direction option" 'r "int option" bool "'r node option" "'r node option"

text \<open>
  One row of the image list widget: the image index stored under \<open>UserRole\<close> and the two
  check boxes of its \<open>ImageListEntry\<close>.
\<close>

record image_entry =
  user_role :: int
  pool_cb :: bool
  mandatory_cb :: bool

text \<open>
  The arguments \<open>start_optimization\<close> hands to the \<open>OptimizationThread\<close> it starts.
\<close>

record 'r worker_args =
  w_chunks :: "int list list"
  w_swap_pool :: "int list"
  w_pages_locks :: "(int, int) dict list"
  w_pages_roots :: "'r node option list"
  w_forced_aspects :: "int list"

text \<open>
  The fields of \<open>AlbumWindow\<close> that the modelled methods read or write. Widgets are
  represented by their value: \<open>num_pages_spin\<close>, \<open>page_config_edit\<close>, \<open>image_list\<close>, and
  the enabled flags of the two buttons; the title line edit and the view settings play no
  part in the modelled methods beyond being copied and are left out. \<open>image_paths\<close> is used
  through its length only. \<open>current_folder\<close> holds the folder's name when a folder is open.
\<close>

record 'r album =
  image_paths :: "string list"
  current_folder :: "string option"
  image_crop_states :: "(int, bool) dict"
  forced_aspect_ratios :: "int set"
  page_titles :: "string list"
  pages_roots :: "'r node option list"
  pages_perms :: "int list list"
  pages_locks :: "(int, int) dict list"
  current_page_idx :: int
  num_pages_spin :: int
  page_config_edit :: string
  image_list :: "image_entry list"
  optimize_btn :: bool
  export_btn :: bool
  worker :: "'r worker_args option"

text \<open>
  The functions of the module \<open>sa_advanced\<close> that the modelled methods call, and the order
  in which Python iterates over a set. The module is not part of the sources and the
  iteration order is not fixed by the language, so they are parameters of the model: the
  theorems hold for every choice. \<open>build_full_tree\<close> returns \<open>None\<close> when it raises
  AssertionError.
\<close>

record 'r externals =
  is_power_of_two :: "int \<Rightarrow> bool"
  build_full_tree :: "int \<Rightarrow> int \<Rightarrow> 'r node option"
  leaf_ids :: "'r node option \<Rightarrow> int list"
  internal_nodes :: "'r node \<Rightarrow> 'r node list"
  list_of_set :: "int set \<Rightarrow> int list"

text \<open>
  The leaf count of a page is \<open>len(sa.leaf_ids(root))\<close>, as \<open>start_optimization\<close> and
  \<open>update_stats\<close> compute it.
\<close>

definition leaf_count :: "'r externals \<Rightarrow> 'r node option \<Rightarrow> int" where
  "leaf_count ext r = py_len (leaf_ids ext r)"

section \<open>handle\_drop\<close>

text \<open>
  Lines 1025 to 1027: the loop over a copy of the items of \<open>locked\<close> that deletes every
  lock of \<open>img_idx\<close> on a leaf other than \<open>leaf_id\<close>.
\<close>

fun unlock_others ::
  "(int \<times> int) list \<Rightarrow> int \<Rightarrow> int \<Rightarrow> (int, int) dict \<Rightarrow> py_error + (int, int) dict" where
  "unlock_others [] leaf_id img_idx locked = Inr locked"
| "unlock_others ((locked_leaf, locked_img) # items) leaf_id img_idx locked =
     (if locked_leaf \<noteq> leaf_id \<and> locked_img = img_idx
      then (case dict_del locked locked_leaf of
              Inl e \<Rightarrow> Inl e
            | Inr locked' \<Rightarrow> unlock_others items leaf_id img_idx locked')
      else unlock_others items leaf_id img_idx locked)"

text \<open>
  Lines 1031 to 1039: the image is moved to the leaf. The tuple assignment reads both
  entries before it writes them.
\<close>

definition place_image :: "int list \<Rightarrow> nat \<Rightarrow> int \<Rightarrow> py_error + int list" where
  "place_image perm leaf_id img_idx =
     (if img_idx \<in> set perm
      then (case py_index perm img_idx of
              None \<Rightarrow> Inl ValueError
            | Some current_leaf_of_img \<Rightarrow>
                if current_leaf_of_img \<noteq> leaf_id
                then Inr ((perm[leaf_id := perm ! current_leaf_of_img])
                            [current_leaf_of_img := perm ! leaf_id])
                else Inr perm)
      else Inr (perm[leaf_id := img_idx]))"

text \<open>
  \<open>AlbumWindow.handle_drop\<close>. The three early returns leave the state as it is. The lists
  \<open>perm\<close> and \<open>locked\<close> are the objects stored in \<open>pages_perms\<close> and \<open>pages_locks\<close>, so
  their mutation is a mutation of the state. The closing calls \<open>update_stats\<close> and
  \<open>draw_layout\<close> only repaint and are not modelled.
\<close>

definition handle_drop :: "'r album \<Rightarrow> int \<Rightarrow> int \<Rightarrow> int \<Rightarrow> py_error + 'r album" where
  "handle_drop s page_idx leaf_id img_idx =
     (if pages_roots s = [] \<or> page_idx \<ge> py_len (pages_roots s) then Inr s
      else case py_getitem (pages_perms s) page_idx of
        Inl e \<Rightarrow> Inl e
      | Inr perm \<Rightarrow>
          if perm = [] then Inr s
          else case py_getitem (pages_locks s) page_idx of
            Inl e \<Rightarrow> Inl e
          | Inr locked \<Rightarrow>
              if leaf_id < 0 \<or> leaf_id \<ge> py_len perm then Inr s
              else if img_idx < 0 \<or> img_idx \<ge> py_len (image_paths s) then Inr s
              else case unlock_others locked leaf_id img_idx locked of
                Inl e \<Rightarrow> Inl e
              | Inr locked1 \<Rightarrow>
                  (case place_image perm (nat leaf_id) img_idx of
                     Inl e \<Rightarrow> Inl e
                   | Inr perm' \<Rightarrow>
                       Inr (s\<lparr>pages_perms := py_store (pages_perms s) page_idx perm',
                              pages_locks := py_store (pages_locks s) page_idx
                                 (AList.update leaf_id img_idx locked1),
                              image_crop_states :=
                                 AList.update img_idx False (image_crop_states s),
                              forced_aspect_ratios :=
                                 insert img_idx (forced_aspect_ratios s)\<rparr>)))"

text \<open>
  A page \<open>p\<close> exists in a state when the three per-page lists have an entry for it, and the
  lock dictionary there has distinct keys, as every Python dictionary has.
\<close>

definition page_exists :: "'r album \<Rightarrow> int \<Rightarrow> bool" where
  "page_exists s p =
     (0 \<le> p \<and> p < py_len (pages_roots s) \<and> p < py_len (pages_perms s)
      \<and> p < py_len (pages_locks s) \<and> distinct (map fst (pages_locks s ! nat p)))"

text \<open>A sequence of drops; the first exception ends it.\<close>

fun handle_drops :: "'r album \<Rightarrow> (int \<times> int \<times> int) list \<Rightarrow> py_error + 'r album" where
  "handle_drops s [] = Inr s"
| "handle_drops s ((page_idx, leaf_id, img_idx) # ops) =
     (case handle_drop s page_idx leaf_id img_idx of
        Inl e \<Rightarrow> Inl e
      | Inr s' \<Rightarrow> handle_drops s' ops)"

text \<open>
  The state invariants about locks: every page has its three entries, lock dictionaries have
  distinct keys, and no image is the value of two locks of one page.
\<close>

definition pages_aligned :: "'r album \<Rightarrow> bool" where
  "pages_aligned s =
     (length (pages_perms s) = length (pages_roots s)
      \<and> length (pages_locks s) = length (pages_roots s)
      \<and> list_all (\<lambda>d. distinct (map fst d)) (pages_locks s))"

definition locks_unique :: "'r album \<Rightarrow> bool" where
  "locks_unique s = list_all (\<lambda>d. distinct (map snd d)) (pages_locks s)"

section \<open>init\_trees\<close>

text \<open>
  \<open>QSpinBox.setValue\<close> keeps the value within the range of the spin box; the source
  sets the minimum to 1 and leaves the maximum at Qt's default of 99.
\<close>

definition qspin_set_value :: "int \<Rightarrow> int" where
  "qspin_set_value v = max 1 (min 99 v)"

text \<open>
  Line 767: \<open>[int(s.strip()) for s in config_str.split(",") if s.strip()]\<close>; the first
  piece that is not an integer raises ValueError.
\<close>

fun py_ints :: "string list \<Rightarrow> py_error + int list" where
  "py_ints [] = Inr []"
| "py_ints (s # ss) =
     (if py_strip s = [] then py_ints ss
      else (case py_int (py_strip s) of
              None \<Rightarrow> Inl ValueError
            | Some c \<Rightarrow> (case py_ints ss of Inl e \<Rightarrow> Inl e | Inr cs \<Rightarrow> Inr (c # cs))))"

text \<open>Lines 783 to 785: the first count that is not a power of two raises ValueError.\<close>

fun check_counts :: "'r externals \<Rightarrow> int list \<Rightarrow> py_error + unit" where
  "check_counts ext [] = Inr ()"
| "check_counts ext (c # cs) =
     (if \<not> is_power_of_two ext c then Inl ValueError else check_counts ext cs)"

text \<open>
  Lines 761 to 785, the body of the \<open>try\<close>: the result is the list of page counts or the
  ValueError, together with the state, in which list mode has set the spin box to the
  number of counts before the counts are checked.
\<close>

definition read_config :: "'r externals \<Rightarrow> 'r album \<Rightarrow> (py_error + int list) \<times> 'r album" where
  "read_config ext s =
     (let config_str = py_strip (page_config_edit s) in
      if CHR '','' \<in> set config_str
      then (case py_ints (py_split (CHR '','') config_str) of
              Inl e \<Rightarrow> (Inl e, s)
            | Inr page_counts \<Rightarrow>
                (let s1 = s\<lparr>num_pages_spin := qspin_set_value (py_len page_counts)\<rparr> in
                 case check_counts ext page_counts of
                   Inl e \<Rightarrow> (Inl e, s1)
                 | Inr u \<Rightarrow> (Inr page_counts, s1)))
      else (case (if config_str \<noteq> [] then py_int config_str else Some 4) of
              None \<Rightarrow> (Inl ValueError, s)
            | Some slots_per_page \<Rightarrow>
                (let page_counts = replicate (nat (num_pages_spin s)) slots_per_page in
                 case check_counts ext page_counts of
                   Inl e \<Rightarrow> (Inl e, s)
                 | Inr u \<Rightarrow> (Inr page_counts, s))))"

text \<open>Lines 801 to 808: old titles are kept by index, new pages get a default title.\<close>

definition new_titles :: "'r album \<Rightarrow> nat \<Rightarrow> string list" where
  "new_titles s num_pages =
     (let old_titles = page_titles s;
          default_title = (case current_folder s of Some name \<Rightarrow> name | None \<Rightarrow> ''Page'')
      in map (\<lambda>i. if i < length old_titles then old_titles ! i
                   else default_title @ '' '' @ py_str (int i + 1))
           [0..<num_pages])"

text \<open>Line 822: one tree per page, with seed \<open>42 + i\<close>.\<close>

fun build_trees :: "'r externals \<Rightarrow> int list \<Rightarrow> nat \<Rightarrow> py_error + 'r node option list" where
  "build_trees ext [] i = Inr []"
| "build_trees ext (cnt # cnts) i =
     (case build_full_tree ext cnt (42 + int i) of
        None \<Rightarrow> Inl AssertionError
      | Some tree \<Rightarrow>
          (case build_trees ext cnts (Suc i) of
             Inl e \<Rightarrow> Inl e
           | Inr roots \<Rightarrow> Inr (Some tree # roots)))"

text \<open>Lines 846 to 850: a page that got fewer images than slots is filled by random picks.\<close>

function pad_perm :: "int list \<Rightarrow> int \<Rightarrow> int list \<Rightarrow> int \<Rightarrow> rng \<Rightarrow> int list \<times> rng" where
  "pad_perm pool_indices total_images page_perm cnt g =
     (if py_len page_perm < cnt
      then (if total_images > 0
            then (case random_choice pool_indices g of
                    (x, g') \<Rightarrow> pad_perm pool_indices total_images (page_perm @ [x]) cnt g')
            else pad_perm pool_indices total_images (page_perm @ [0]) cnt g)
      else (page_perm, g))"
  by pat_completeness auto
termination
  by (relation "measure (\<lambda>(pool_indices, total_images, page_perm, cnt, g).
        nat (cnt - py_len page_perm))") (auto simp: py_len_def)

declare pad_perm.simps [simp del]

text \<open>Lines 833 to 853: consecutive runs of the shuffled pool, one per page.\<close>

fun deal_perms ::
  "int list \<Rightarrow> int \<Rightarrow> int list \<Rightarrow> int \<Rightarrow> rng \<Rightarrow> int list list \<times> rng" where
  "deal_perms pool_indices total_images [] current_idx g = ([], g)"
| "deal_perms pool_indices total_images (cnt # cnts) current_idx g =
     (let end_idx = min (current_idx + cnt) total_images in
      case pad_perm pool_indices total_images
             (py_slice pool_indices current_idx end_idx) cnt g of
        (page_perm, g') \<Rightarrow>
          (case deal_perms pool_indices total_images cnts (current_idx + cnt) g' of
             (perms, g'') \<Rightarrow> (page_perm # perms, g'')))"

text \<open>
  Lines 864 to 867: the locks of one page whose leaf is outside the new page size are
  deleted. The keys deleted are keys of the dictionary itself, so \<open>del\<close> finds each.
\<close>

definition clear_locks :: "(int, int) dict \<Rightarrow> int \<Rightarrow> (int, int) dict" where
  "clear_locks locks limit =
     (let to_remove = filter (\<lambda>k. k \<ge> limit) (map fst locks)
      in fold AList.delete to_remove locks)"

text \<open>
  The \<open>return\<close> statement at which \<open>init_trees\<close> ends: line 759 (no images), line 793
  (configuration error with a valid state at hand), line 826 (AssertionError of
  \<open>build_full_tree\<close>), or the end of the method.
\<close>

datatype init_return = Return_no_images | Return_config_error | Return_build_failed | Return_end

text \<open>
  Lines 787 to 796: after a ValueError the method goes on with \<open>[4]\<close> when there are no
  trees yet and returns otherwise; an empty list of counts becomes \<open>[4]\<close>.
\<close>

definition fallback_counts :: "py_error + int list \<Rightarrow> 'r album \<Rightarrow> int list option" where
  "fallback_counts r s =
     (case (case r of
              Inr page_counts \<Rightarrow> Some page_counts
            | Inl e \<Rightarrow> if pages_roots s = [] then Some [4] else None) of
        None \<Rightarrow> None
      | Some page_counts \<Rightarrow> Some (if page_counts = [] then [4] else page_counts))"

text \<open>
  Lines 798 to 874: titles, current page, trees, permutations and locks for the page
  counts. The locks are reset when the number of lock dictionaries differs from the number
  of pages, and are cleared of out-of-range leaves otherwise.
\<close>

definition configure_pages ::
  "'r externals \<Rightarrow> int list \<Rightarrow> 'r album \<Rightarrow> rng \<Rightarrow> init_return \<times> 'r album \<times> rng" where
  "configure_pages ext page_counts s g =
     (let total_images = py_len (image_paths s);
          num_pages = length page_counts;
          idx1 = (if current_page_idx s \<ge> int num_pages then int num_pages - 1
                  else current_page_idx s);
          idx2 = (if idx1 < 0 then 0 else idx1);
          s2 = s\<lparr>page_titles := new_titles s num_pages, current_page_idx := idx2\<rparr>
      in case build_trees ext page_counts 0 of
           Inl e \<Rightarrow> (Return_build_failed, s2\<lparr>pages_roots := [], optimize_btn := False\<rparr>, g)
         | Inr roots \<Rightarrow>
             (case random_shuffle (map int [0..<length (image_paths s)]) g of
                (pool_indices, g1) \<Rightarrow>
                  (case deal_perms pool_indices total_images page_counts 0 g1 of
                     (perms, g2) \<Rightarrow>
                       (Return_end,
                        s2\<lparr>pages_roots := roots,
                           pages_perms := perms,
                           pages_locks :=
                             (if length (pages_locks s) \<noteq> num_pages
                              then replicate num_pages []
                              else map (\<lambda>(locks, limit). clear_locks locks limit)
                                     (zip (pages_locks s) page_counts)),
                           current_page_idx := 0,
                           optimize_btn := (roots \<noteq> []),
                           export_btn := (roots \<noteq> [])\<rparr>,
                        g2))))"

text \<open>\<open>AlbumWindow.init_trees\<close>.\<close>

definition init_trees ::
  "'r externals \<Rightarrow> 'r album \<Rightarrow> rng \<Rightarrow> init_return \<times> 'r album \<times> rng" where
  "init_trees ext s g =
     (if py_len (image_paths s) = 0 then (Return_no_images, s\<lparr>optimize_btn := False\<rparr>, g)
      else (case read_config ext s of
              (r, s1) \<Rightarrow>
                (case fallback_counts r s1 of
                   None \<Rightarrow> (Return_config_error, s1, g)
                 | Some page_counts \<Rightarrow> configure_pages ext page_counts s1 g)))"

section \<open>start\_optimization\<close>

text \<open>
  What \<open>start_optimization\<close> does last: it returns at line 1089 (no pages), shows the
  warning "Too Many Mandatory Images" or "Not Enough Images" and returns, or starts the
  worker thread.
\<close>

datatype opt_return =
  Return_no_pages | Warning_too_many_mandatory | Warning_not_enough_images | Worker_started

text \<open>
  Lines 1097 to 1101: \<open>has_locks\<close> is whether some tree has an internal node whose
  \<open>locked\<close> flag is set. \<open>node_locked\<close> reads the flag.
\<close>

fun node_locked :: "'r node \<Rightarrow> bool" where
  "node_locked (Node d r i l a b) = l"

definition has_locks :: "'r externals \<Rightarrow> 'r node option list \<Rightarrow> bool" where
  "has_locks ext roots =
     list_ex (\<lambda>r. case r of
                     None \<Rightarrow> False
                   | Some tree \<Rightarrow> list_ex node_locked (internal_nodes ext tree)) roots"

text \<open>
  Line 1105: one new tree per page, each with a seed drawn by \<open>random.randint(0, 1000000)\<close>.
  An AssertionError of \<open>build_full_tree\<close> is not caught here.
\<close>

fun rebuild_trees ::
  "'r externals \<Rightarrow> int list \<Rightarrow> rng \<Rightarrow> py_error + ('r node option list \<times> rng)" where
  "rebuild_trees ext [] g = Inr ([], g)"
| "rebuild_trees ext (cnt # cnts) g =
     (case random_randint 0 1000000 g of
        (seed, g1) \<Rightarrow>
          (case build_full_tree ext cnt seed of
             None \<Rightarrow> Inl AssertionError
           | Some tree \<Rightarrow>
               (case rebuild_trees ext cnts g1 of
                  Inl e \<Rightarrow> Inl e
                | Inr (roots, g2) \<Rightarrow> Inr (Some tree # roots, g2))))"

text \<open>
  Lines 1108 to 1125: the images that are the value of some lock, the mandatory images
  (locked or flagged mandatory), and the optional images in the order of the list: flagged
  for the pool, neither flagged mandatory nor locked. Line 1094: the total number of slots.
\<close>

definition locked_indices :: "'r album \<Rightarrow> int set" where
  "locked_indices s = set (concat (map (map snd) (pages_locks s)))"

definition mandatory_indices :: "'r album \<Rightarrow> int set" where
  "mandatory_indices s =
     locked_indices s \<union> set (map user_role (filter mandatory_cb (image_list s)))"

definition optional_indices :: "'r album \<Rightarrow> int list" where
  "optional_indices s =
     map user_role
       (filter (\<lambda>e. \<not> mandatory_cb e \<and> pool_cb e \<and> user_role e \<notin> locked_indices s)
          (image_list s))"

definition total_needed :: "'r externals \<Rightarrow> 'r album \<Rightarrow> int" where
  "total_needed ext s = sum_list (map (leaf_count ext) (pages_roots s))"

text \<open>
  Lines 1159 to 1163: a page takes images from the front of \<open>free_active\<close> while it has
  fewer than its slots and images are left.
\<close>

fun fill_chunk :: "int list \<Rightarrow> int \<Rightarrow> int list \<Rightarrow> int list \<times> int list" where
  "fill_chunk chunk slots_for_page [] = (chunk, [])"
| "fill_chunk chunk slots_for_page (x # free_active) =
     (if py_len chunk < slots_for_page
      then fill_chunk (chunk @ [x]) slots_for_page free_active
      else (chunk, x # free_active))"

fun fill_chunks :: "int list list \<Rightarrow> int list \<Rightarrow> int list \<Rightarrow> int list list" where
  "fill_chunks (chunk # chunks) (slots_for_page # page_counts) free_active =
     (case fill_chunk chunk slots_for_page free_active of
        (chunk', free_active') \<Rightarrow> chunk' # fill_chunks chunks page_counts free_active')"
| "fill_chunks chunks page_counts free_active = chunks"

text \<open>
  Lines 1138 to 1180: the arguments of the worker. \<open>self.pages_locks[p]\<close> raises
  IndexError when there are fewer lock dictionaries than pages. The forced aspects are
  represented by their keys; the bound \<open>len(self.image_metadata)\<close> is the number of images,
  one metadata record having been computed per image path.
\<close>

definition dispatch ::
  "'r externals \<Rightarrow> 'r album \<Rightarrow> int list \<Rightarrow> py_error + 'r worker_args" where
  "dispatch ext s page_counts =
     (let num_pages = length page_counts;
          needed = sum_list page_counts;
          optional = optional_indices s;
          active0 = list_of_set ext (mandatory_indices s);
          slots_remaining = needed - py_len active0;
          active_indices =
            (if slots_remaining > 0 then active0 @ py_slice optional 0 slots_remaining
             else active0)
      in if length (pages_locks s) < num_pages then Inl IndexError
         else
          (let locked_chunks =
                 map (\<lambda>locks. filter (\<lambda>img_idx. img_idx \<in> set active_indices) (map snd locks))
                   (take num_pages (pages_locks s));
               assigned = set (concat locked_chunks);
               free_active = filter (\<lambda>idx. idx \<notin> assigned) active_indices
           in Inr \<lparr>w_chunks = fill_chunks locked_chunks page_counts free_active,
                   w_swap_pool = py_slice optional slots_remaining (py_len optional),
                   w_pages_locks = pages_locks s,
                   w_pages_roots = pages_roots s,
                   w_forced_aspects =
                     filter (\<lambda>idx. 0 \<le> idx \<and> idx < py_len (image_paths s))
                       (list_of_set ext (forced_aspect_ratios s))\<rparr>))"

text \<open>
  \<open>AlbumWindow.start_optimization\<close>. The trees are rebuilt, when no internal node is
  locked, before the request is validated.
\<close>

definition start_optimization ::
  "'r externals \<Rightarrow> 'r album \<Rightarrow> rng \<Rightarrow> py_error + (opt_return \<times> 'r album \<times> rng)" where
  "start_optimization ext s g =
     (if pages_roots s = [] \<or> pages_perms s = [] then Inr (Return_no_pages, s, g)
      else
       (let page_counts = map (leaf_count ext) (pages_roots s) in
        case (if \<not> has_locks ext (pages_roots s)
              then (case rebuild_trees ext page_counts g of
                      Inl e \<Rightarrow> Inl e
                    | Inr (roots, g1) \<Rightarrow> Inr (s\<lparr>pages_roots := roots\<rparr>, g1))
              else Inr (s, g)) of
          Inl e \<Rightarrow> Inl e
        | Inr (s1, g1) \<Rightarrow>
            if int (card (mandatory_indices s1)) > sum_list page_counts
            then Inr (Warning_too_many_mandatory, s1, g1)
            else if int (card (mandatory_indices s1)) + py_len (optional_indices s1)
                      < sum_list page_counts
            then Inr (Warning_not_enough_images, s1, g1)
            else (case dispatch ext s1 page_counts of
                    Inl e \<Rightarrow> Inl e
                  | Inr args \<Rightarrow>
                      Inr (Worker_started, s1\<lparr>worker := Some args, optimize_btn := False\<rparr>, g1))))"

section \<open>Snapshots\<close>

text \<open>
  The document \<open>serialize_tree\<close> builds for a node: a dictionary with the keys \<open>dir\<close>,
  \<open>t\<close>, \<open>leaf_id\<close>, \<open>locked\<close>, \<open>left\<close>, \<open>right\<close>, or \<open>None\<close> for no node. The key
  \<open>locked\<close> may be missing in a document read from a file (\<open>data.get("locked", False)\<close>).
\<close>

datatype 'r tree_doc =
  Tree_doc "direction option" 'r "int option" "bool option"
    "'r tree_doc option" "'r tree_doc option"

fun serialize_tree :: "'r node option \<Rightarrow> 'r tree_doc option" where
  "serialize_tree None = None"
| "serialize_tree (Some (Node d r i l a b)) =
     Some (Tree_doc d r i (Some l) (serialize_tree a) (serialize_tree b))"

fun deserialize_tree :: "'r tree_doc option \<Rightarrow> 'r node option" where
  "deserialize_tree None = None"
| "deserialize_tree (Some (Tree_doc d r i l a b)) =
     Some (Node d r i (case l of None \<Rightarrow> False | Some v \<Rightarrow> v)
             (deserialize_tree a) (deserialize_tree b))"

text \<open>
  A key of a dictionary in a snapshot: an integer while the snapshot is in memory, text
  once it has been written by \<open>json.dump\<close> and read back. \<open>key_int\<close> is \<open>int(k)\<close>,
  \<open>key_text\<close> is the key as JSON writes it.
\<close>

datatype json_key = Int_key int | Str_key string

fun key_int :: "json_key \<Rightarrow> int option" where
  "key_int (Int_key n) = Some n"
| "key_int (Str_key s) = py_int s"

fun key_text :: "json_key \<Rightarrow> json_key" where
  "key_text (Int_key n) = Str_key (py_str n)"
| "key_text (Str_key s) = Str_key s"

text \<open>
  Lines 639 and 640: \<open>{int(k): v for k, v in d.items()}\<close>, for one dictionary and for the
  list of lock dictionaries; a key that is not an integer raises ValueError.
\<close>

fun int_keys_from ::
  "(json_key \<times> 'v) list \<Rightarrow> (int, 'v) dict \<Rightarrow> py_error + (int, 'v) dict" where
  "int_keys_from [] acc = Inr acc"
| "int_keys_from ((k, v) # items) acc =
     (case key_int k of
        None \<Rightarrow> Inl ValueError
      | Some n \<Rightarrow> int_keys_from items (AList.update n v acc))"

definition int_keys :: "(json_key \<times> 'v) list \<Rightarrow> py_error + (int, 'v) dict" where
  "int_keys d = int_keys_from d []"

fun int_keys_all :: "(json_key \<times> 'v) list list \<Rightarrow> py_error + (int, 'v) dict list" where
  "int_keys_all [] = Inr []"
| "int_keys_all (d # ds) =
     (case int_keys d of
        Inl e \<Rightarrow> Inl e
      | Inr d' \<Rightarrow> (case int_keys_all ds of Inl e \<Rightarrow> Inl e | Inr ds' \<Rightarrow> Inr (d' # ds')))"

text \<open>
  The snapshot document, without the view settings. \<open>page_titles\<close> may be missing in an
  old file, which then has \<open>title\<close> or neither.
\<close>

record 'r snapshot =
  snap_num_pages :: int
  snap_page_config :: string
  snap_page_titles :: "string list option"
  snap_title :: "string option"
  snap_trees :: "'r tree_doc option list"
  snap_perms :: "int list list"
  snap_locks :: "(json_key \<times> int) list list"
  snap_crop_states :: "(json_key \<times> bool) list"
  snap_forced_aspects :: "int list"

definition with_int_keys :: "(int, 'v) dict \<Rightarrow> (json_key \<times> 'v) list" where
  "with_int_keys d = map (\<lambda>(k, v). (Int_key k, v)) d"

text \<open>
  \<open>AlbumWindow.take_snapshot\<close>, up to the document it appends to \<open>self.snapshots\<close>; the
  search for a free file name and the writing of the file are not modelled. The iteration
  order of \<open>list(self.forced_aspect_ratios)\<close> is the parameter \<open>list_of_set\<close>.
\<close>

definition take_snapshot :: "'r externals \<Rightarrow> 'r album \<Rightarrow> 'r snapshot option" where
  "take_snapshot ext s =
     (if current_folder s = None then None
      else Some \<lparr>snap_num_pages = num_pages_spin s,
                 snap_page_config = page_config_edit s,
                 snap_page_titles = Some (page_titles s),
                 snap_title = None,
                 snap_trees = map serialize_tree (pages_roots s),
                 snap_perms = pages_perms s,
                 snap_locks = map with_int_keys (pages_locks s),
                 snap_crop_states = with_int_keys (image_crop_states s),
                 snap_forced_aspects = list_of_set ext (forced_aspect_ratios s)\<rparr>)"

text \<open>
  A document after \<open>json.dump\<close> and \<open>json.load\<close>, as \<open>load_images\<close> reads the snapshots
  of a folder: the keys of dictionaries have become text, and of two equal keys the later
  one wins. Numbers, among them the float \<open>t\<close>, are read back as written.
\<close>

definition json_object :: "(json_key \<times> 'v) list \<Rightarrow> (json_key \<times> 'v) list" where
  "json_object d = fold (\<lambda>(k, v) acc. AList.update (key_text k) v acc) d []"

definition json_file :: "'r snapshot \<Rightarrow> 'r snapshot" where
  "json_file doc =
     doc\<lparr>snap_locks := map json_object (snap_locks doc),
         snap_crop_states := json_object (snap_crop_states doc)\<rparr>"

text \<open>
  \<open>AlbumWindow.restore_snapshot\<close> for a snapshot of the list. Setting the spin box emits
  \<open>valueChanged\<close> when the value changes, which runs \<open>init_trees\<close> before the data are
  restored. The calls that repaint are not modelled.
\<close>

definition restore_snapshot ::
  "'r externals \<Rightarrow> 'r snapshot \<Rightarrow> 'r album \<Rightarrow> rng \<Rightarrow> py_error + ('r album \<times> rng)" where
  "restore_snapshot ext data s g =
     (let v = qspin_set_value (snap_num_pages data) in
      case (if v \<noteq> num_pages_spin s
            then (case init_trees ext (s\<lparr>num_pages_spin := v\<rparr>) g of (r, s1, g1) \<Rightarrow> (s1, g1))
            else (s, g)) of
        (s1, g1) \<Rightarrow>
          (case int_keys_all (snap_locks data) of
             Inl e \<Rightarrow> Inl e
           | Inr locks \<Rightarrow>
               (case int_keys (snap_crop_states data) of
                  Inl e \<Rightarrow> Inl e
                | Inr crop_states \<Rightarrow>
                    Inr (s1\<lparr>page_config_edit := snap_page_config data,
                            page_titles :=
                              (case snap_page_titles data of
                                 Some titles \<Rightarrow> titles
                               | None \<Rightarrow>
                                   replicate (nat (snap_num_pages data))
                                     (case snap_title data of
                                        Some title \<Rightarrow> title
                                      | None \<Rightarrow> ''default title'')),
                            pages_roots := map deserialize_tree (snap_trees data),
                            pages_perms := snap_perms data,
                            pages_locks := locks,
                            image_crop_states := crop_states,
                            forced_aspect_ratios := set (snap_forced_aspects data),
                            current_page_idx := 0\<rparr>, g1))))"

text \<open>
  For the statement of the round trip: \<open>list_of_set\<close> lists the elements of a finite set;
  the dictionaries of a state have distinct keys and its set is finite, as Python's are;
  and the fields the round trip is about.
\<close>

definition lists_finite_sets :: "'r externals \<Rightarrow> bool" where
  "lists_finite_sets ext = (\<forall>A. finite A \<longrightarrow> set (list_of_set ext A) = A)"

definition dicts_well_formed :: "'r album \<Rightarrow> bool" where
  "dicts_well_formed s =
     (list_all (\<lambda>d. distinct (map fst d)) (pages_locks s)
      \<and> distinct (map fst (image_crop_states s)) \<and> finite (forced_aspect_ratios s))"

definition restored_fields :: "'r album \<Rightarrow> 'r album \<Rightarrow> bool" where
  "restored_fields s s' =
     (pages_roots s' = pages_roots s \<and> pages_perms s' = pages_perms s
      \<and> pages_locks s' = pages_locks s \<and> image_crop_states s' = image_crop_states s
      \<and> forced_aspect_ratios s' = forced_aspect_ratios s)"

section \<open>An instance of the external functions\<close>

text \<open>
  Modelled from the spec: \<open>sa.is_power_of_two\<close>, \<open>sa.build_full_tree\<close>, \<open>sa.leaf_ids\<close> and
  \<open>sa.internal_nodes\<close> are not in the sources. Section 4.1 of the specification asks for a
  balanced tree with exactly the requested number of leaves, leaf ids \<open>0 .. k-1\<close>, a
  failure when the count is not a power of two, and a seed that only varies directions and
  ratios. How the seed does so is not specified; the choice below is arbitrary. This
  instance serves the examples only.
\<close>

definition model_is_power_of_two :: "int \<Rightarrow> bool" where
  "model_is_power_of_two n = (n > 0 \<and> (\<exists>k \<in> set [0..<nat n]. n = 2 ^ k))"

fun log2_nat :: "nat \<Rightarrow> nat" where
  "log2_nat n = (if n \<le> 1 then 0 else Suc (log2_nat (n div 2)))"

declare log2_nat.simps [simp del]

fun full_tree :: "nat \<Rightarrow> int \<Rightarrow> int \<Rightarrow> rat node" where
  "full_tree 0 first_id seed = Node None 0 (Some first_id) False None None"
| "full_tree (Suc d) first_id seed =
     Node (Some (if even (seed + int d) then Horizontal else Vertical))
       ((1 + of_int (seed mod 3)) / 4) None False
       (Some (full_tree d first_id seed))
       (Some (full_tree d (first_id + 2 ^ d) seed))"

definition model_build_full_tree :: "int \<Rightarrow> int \<Rightarrow> rat node option" where
  "model_build_full_tree n seed =
     (if model_is_power_of_two n then Some (full_tree (log2_nat (nat n)) 0 seed) else None)"

fun model_leaf_ids :: "'r node option \<Rightarrow> int list" where
  "model_leaf_ids None = []"
| "model_leaf_ids (Some (Node d r (Some i) l None None)) = [i]"
| "model_leaf_ids (Some (Node d r i l a b)) = model_leaf_ids a @ model_leaf_ids b"

fun model_internal :: "'r node option \<Rightarrow> 'r node list" where
  "model_internal None = []"
| "model_internal (Some (Node d r i l None None)) = []"
| "model_internal (Some (Node d r i l a b)) =
     Node d r i l a b # model_internal a @ model_internal b"

definition model_externals :: "rat externals" where
  "model_externals =
     \<lparr>is_power_of_two = model_is_power_of_two,
      build_full_tree = model_build_full_tree,
      leaf_ids = model_leaf_ids,
      internal_nodes = (\<lambda>n. model_internal (Some n)),
      list_of_set = sorted_list_of_set\<rparr>"

section \<open>Auxiliary definitions for the statements about handle\_drop\<close>

text \<open>
  The permutation and the lock dictionary of the page after a completed drop, in closed
  form; the lemmas \<open>place_image_placed\<close> and \<open>unlock_others_self\<close> relate them to the code.
\<close>

definition placed :: "int list \<Rightarrow> nat \<Rightarrow> int \<Rightarrow> int list" where
  "placed perm l img =
     (case py_index perm img of
        None \<Rightarrow> perm[l := img]
      | Some c \<Rightarrow> (perm[l := perm ! c])[c := perm ! l])"

definition relocked :: "(int, int) dict \<Rightarrow> int \<Rightarrow> int \<Rightarrow> (int, int) dict" where
  "relocked d leaf img =
     AList.update leaf img (filter (\<lambda>(k, v). \<not> (k \<noteq> leaf \<and> v = img)) d)"

text \<open>
  The swap-or-overwrite rule in the words of the specification (section 4.2, step 4): if
  the image occupies a leaf \<open>j\<close> other than the target, the contents of \<open>j\<close> and the
  target are swapped (\<open>j\<close> being the first such leaf); otherwise the target is overwritten.
\<close>

definition swap_or_overwrite :: "int list \<Rightarrow> nat \<Rightarrow> int \<Rightarrow> int list \<Rightarrow> bool" where
  "swap_or_overwrite perm l img perm' =
     (if \<exists>j<length perm. j \<noteq> l \<and> perm ! j = img
      then \<exists>j<length perm. j \<noteq> l \<and> perm ! j = img \<and> (\<forall>k<j. k \<noteq> l \<longrightarrow> perm ! k \<noteq> img)
             \<and> perm' = (perm[l := perm ! j])[j := perm ! l]
      else perm' = perm[l := img])"

section \<open>Definitions for the statements about init\_trees\<close>

text \<open>
  The counts a slot specification denotes, \<open>None\<close> for a piece that is not an integer, and
  the specifications the specification calls invalid: one that fails to parse or has a count
  that is not a power of two.
\<close>

definition config_counts :: "string \<Rightarrow> int \<Rightarrow> int option list" where
  "config_counts config_text num_pages =
     (let config_str = py_strip config_text in
      if CHR '','' \<in> set config_str
      then map (\<lambda>piece. py_int (py_strip piece))
             (filter (\<lambda>piece. py_strip piece \<noteq> []) (py_split (CHR '','') config_str))
      else replicate (nat num_pages) (if config_str \<noteq> [] then py_int config_str else Some 4))"

definition invalid_config :: "'r externals \<Rightarrow> 'r album \<Rightarrow> bool" where
  "invalid_config ext s =
     list_ex (\<lambda>c. case c of None \<Rightarrow> True | Some n \<Rightarrow> \<not> is_power_of_two ext n)
       (config_counts (page_config_edit s) (num_pages_spin s))"

text \<open>
  \<open>slots_before\<close> is the number of slots of the pages before page \<open>i\<close>. \<open>builds_requested_leaves\<close> is the contract of \<open>build_full_tree\<close> in section 4.1
  of the specification: the tree has exactly the requested number of leaves.
\<close>

definition slots_before :: "'r externals \<Rightarrow> 'r node option list \<Rightarrow> nat \<Rightarrow> int" where
  "slots_before ext roots i = sum_list (map (leaf_count ext) (take i roots))"

definition builds_requested_leaves :: "'r externals \<Rightarrow> bool" where
  "builds_requested_leaves ext =
     (\<forall>n seed tree. build_full_tree ext n seed = Some tree \<longrightarrow> leaf_count ext (Some tree) = n)"

section \<open>Example states\<close>

text \<open>
  Five images and one page of four leaves holding the images 0 to 3; in \<open>album4\<close> image 0
  is locked on leaf 0, in \<open>page4\<close> nothing is locked. \<open>rng0\<close> and \<open>rng1\<close> are the
  generators whose draws are all 0 and all 1.
\<close>

definition album4 :: "rat album" where
  "album4 =
     \<lparr>image_paths = [''a.jpg'', ''b.jpg'', ''c.jpg'', ''d.jpg'', ''e.jpg''],
      current_folder = Some ''trip'',
      image_crop_states = [],
      forced_aspect_ratios = {},
      page_titles = [''trip 1''],
      pages_roots = [Some (full_tree 2 0 42)],
      pages_perms = [[0, 1, 2, 3]],
      pages_locks = [[(0, 0)]],
      current_page_idx = 0,
      num_pages_spin = 1,
      page_config_edit = ''4'',
      image_list =
        [\<lparr>user_role = 0, pool_cb = True, mandatory_cb = False\<rparr>,
         \<lparr>user_role = 1, pool_cb = True, mandatory_cb = False\<rparr>,
         \<lparr>user_role = 2, pool_cb = True, mandatory_cb = False\<rparr>,
         \<lparr>user_role = 3, pool_cb = True, mandatory_cb = False\<rparr>,
         \<lparr>user_role = 4, pool_cb = True, mandatory_cb = False\<rparr>],
      optimize_btn = True,
      export_btn = True,
      worker = None\<rparr>"

definition rng0 :: rng where
  "rng0 = (\<lambda>i. 0)"

definition rng1 :: rng where
  "rng1 = (\<lambda>i. 1)"

definition page4 :: "rat album" where
  "page4 = album4\<lparr>pages_locks := [[]], image_list := []\<rparr>"

text \<open>
  A page whose tree is a chain of three splits, as a restored snapshot or the
  linear-partition optimizer may leave it; the state with every image flagged mandatory;
  the state with no pages. \<open>outcome\<close> projects a result of \<open>start_optimization\<close> to what it
  returned at, the trees and the locks.
\<close>

definition chain4 :: "rat node" where
  "chain4 =
     Node (Some Horizontal) (1 / 2) None False
       (Some (Node None 0 (Some 0) False None None))
       (Some (Node (Some Vertical) (1 / 2) None False
          (Some (Node None 0 (Some 1) False None None))
          (Some (Node (Some Horizontal) (1 / 2) None False
             (Some (Node None 0 (Some 2) False None None))
             (Some (Node None 0 (Some 3) False None None))))))"

definition album_chain :: "rat album" where
  "album_chain = album4\<lparr>pages_roots := [Some chain4]\<rparr>"

definition all_mandatory :: "'r album \<Rightarrow> 'r album" where
  "all_mandatory s = s\<lparr>image_list := map (\<lambda>e. e\<lparr>mandatory_cb := True\<rparr>) (image_list s)\<rparr>"

definition no_pages :: "'r album \<Rightarrow> 'r album" where
  "no_pages s = s\<lparr>pages_roots := [], pages_perms := [], pages_locks := []\<rparr>"

definition outcome :: "py_error + (opt_return \<times> 'r album \<times> rng) \<Rightarrow>
    py_error + (opt_return \<times> 'r node option list \<times> (int, int) dict list)" where
  "outcome res = map_sum id (\<lambda>(r, s, g). (r, pages_roots s, pages_locks s)) res"

text \<open>The example state after image 0 has been dropped on its leaf.\<close>

definition album4_dropped :: "rat album" where
  "album4_dropped = album4\<lparr>image_crop_states := [(0, False)], forced_aspect_ratios := {0}\<rparr>"

section \<open>Facts about the Python values\<close>

lemma py_pos_nonneg: "0 \<le> i \<Longrightarrow> i < py_len xs \<Longrightarrow> py_pos xs i = Some (nat i)"
  by (simp add: py_pos_def py_len_def Let_def)

lemma py_getitem_nonneg: "0 \<le> i \<Longrightarrow> i < py_len xs \<Longrightarrow> py_getitem xs i = Inr (xs ! nat i)"
  by (simp add: py_getitem_def py_pos_nonneg)

lemma py_store_nonneg: "0 \<le> i \<Longrightarrow> i < py_len xs \<Longrightarrow> py_store xs i v = xs[nat i := v]"
  by (simp add: py_store_def py_pos_nonneg)

lemma py_pos_less: "py_pos xs i = Some j \<Longrightarrow> j < length xs"
  by (auto simp: py_pos_def py_len_def Let_def split: if_splits)

lemma length_py_store [simp]: "length (py_store xs i v) = length xs"
  by (simp add: py_store_def split: option.splits)

lemma py_index_None: "py_index xs x = None \<longleftrightarrow> x \<notin> set xs"
  by (induction xs) auto

lemma py_index_Some:
  "py_index xs x = Some j \<Longrightarrow> j < length xs \<and> xs ! j = x \<and> (\<forall>k<j. xs ! k \<noteq> x)"
proof (induction xs arbitrary: j)
  case Nil
  then show ?case by simp
next
  case (Cons y ys)
  show ?case
  proof (cases "y = x")
    case True
    with Cons.prems show ?thesis by simp
  next
    case False
    with Cons.prems obtain j' where j': "py_index ys x = Some j'" "j = Suc j'"
      by auto
    from Cons.IH[OF j'(1)] False j'(2) show ?thesis
      by (auto simp: nth_Cons split: nat.splits)
  qed
qed

section \<open>Facts about handle\_drop\<close>

lemma dict_del_present:
  "k \<in> fst ` set d \<Longrightarrow> dict_del d k = Inr (AList.delete k d)"
  by (simp add: dict_del_def)

lemma unlock_others_filter:
  "distinct (map fst items) \<Longrightarrow> distinct (map fst d) \<Longrightarrow> set items \<subseteq> set d \<Longrightarrow>
   unlock_others items leaf_id img_idx d =
     Inr (filter (\<lambda>(k, v). (k, v) \<notin> set items \<or> \<not> (k \<noteq> leaf_id \<and> v = img_idx)) d)"
proof (induction items arbitrary: d)
  case Nil
  then show ?case by simp
next
  case (Cons item items)
  obtain k v where item: "item = (k, v)" by (cases item)
  from Cons.prems item have kv: "(k, v) \<in> set d" and sub: "set items \<subseteq> set d"
    and dit: "distinct (map fst items)" and knot: "k \<notin> fst ` set items"
    by auto
  show ?case
  proof (cases "k \<noteq> leaf_id \<and> v = img_idx")
    case False
    have "unlock_others (item # items) leaf_id img_idx d = unlock_others items leaf_id img_idx d"
      using False item by auto
    also have "\<dots> = Inr (filter (\<lambda>(k, v). (k, v) \<notin> set items \<or> \<not> (k \<noteq> leaf_id \<and> v = img_idx)) d)"
      by (rule Cons.IH[OF dit Cons.prems(2) sub])
    also have "filter (\<lambda>(k, v). (k, v) \<notin> set items \<or> \<not> (k \<noteq> leaf_id \<and> v = img_idx)) d
        = filter (\<lambda>(k, v). (k, v) \<notin> set (item # items) \<or> \<not> (k \<noteq> leaf_id \<and> v = img_idx)) d"
      using False item by (intro filter_cong) auto
    finally show ?thesis .
  next
    case True
    let ?d' = "AList.delete k d"
    have d': "distinct (map fst ?d')" using Cons.prems(2) by (rule distinct_delete)
    have sub': "set items \<subseteq> set ?d'"
      using sub knot by (force simp: AList.delete_eq)
    have "unlock_others (item # items) leaf_id img_idx d = unlock_others items leaf_id img_idx ?d'"
      using True item kv by (simp add: dict_del_def image_iff) force
    also have "\<dots> = Inr (filter (\<lambda>(k, v). (k, v) \<notin> set items \<or> \<not> (k \<noteq> leaf_id \<and> v = img_idx)) ?d')"
      by (rule Cons.IH[OF dit d' sub'])
    also have "filter (\<lambda>(k, v). (k, v) \<notin> set items \<or> \<not> (k \<noteq> leaf_id \<and> v = img_idx)) ?d'
        = filter (\<lambda>(k, v). (k, v) \<notin> set (item # items) \<or> \<not> (k \<noteq> leaf_id \<and> v = img_idx)) d"
    proof -
      have uniq: "\<And>v'. (k, v') \<in> set d \<Longrightarrow> v' = v"
        using Cons.prems(2) kv by (meson eq_key_imp_eq_value)
      show ?thesis
        unfolding AList.delete_eq filter_filter
        using True item uniq by (intro filter_cong) auto
    qed
    finally show ?thesis .
  qed
qed

lemma unlock_others_self:
  assumes "distinct (map fst d)"
  shows "unlock_others d leaf_id img_idx d =
     Inr (filter (\<lambda>(k, v). \<not> (k \<noteq> leaf_id \<and> v = img_idx)) d)"
proof -
  have "unlock_others d leaf_id img_idx d =
     Inr (filter (\<lambda>(k, v). (k, v) \<notin> set d \<or> \<not> (k \<noteq> leaf_id \<and> v = img_idx)) d)"
    using assms by (intro unlock_others_filter) auto
  also have "filter (\<lambda>(k, v). (k, v) \<notin> set d \<or> \<not> (k \<noteq> leaf_id \<and> v = img_idx)) d
     = filter (\<lambda>(k, v). \<not> (k \<noteq> leaf_id \<and> v = img_idx)) d"
    by (intro filter_cong) auto
  finally show ?thesis .
qed

lemma place_image_placed: "place_image perm l img = Inr (placed perm l img)"
proof (cases "py_index perm img")
  case None
  then have "img \<notin> set perm" by (simp add: py_index_None)
  with None show ?thesis by (simp add: place_image_def placed_def)
next
  case (Some c)
  then have "img \<in> set perm" using py_index_None[of perm img] by auto
  with Some show ?thesis by (auto simp: place_image_def placed_def)
qed

lemma length_placed [simp]: "length (placed perm l img) = length perm"
  by (simp add: placed_def split: option.splits)

lemma placed_at_leaf: "l < length perm \<Longrightarrow> placed perm l img ! l = img"
  by (auto simp: placed_def nth_list_update dest: py_index_Some split: option.splits)

lemma relocked_keys: "distinct (map fst d) \<Longrightarrow> distinct (map fst (relocked d leaf img))"
  unfolding relocked_def by (intro distinct_update) (simp add: distinct_map_filter)

lemma update_values_distinct:
  "distinct (map fst d) \<Longrightarrow> distinct (map snd d) \<Longrightarrow>
   (\<forall>(k, v) \<in> set d. v = img \<longrightarrow> k = leaf) \<Longrightarrow>
   distinct (map snd (AList.update leaf img d))"
proof (induction d)
  case Nil
  then show ?case by simp
next
  case (Cons p ps)
  show ?case
  proof (cases "fst p = leaf")
    case True
    have "img \<notin> snd ` set ps"
    proof
      assume "img \<in> snd ` set ps"
      then obtain k where k: "(k, img) \<in> set ps" by force
      with Cons.prems(3) have "k = leaf" by auto
      with k have "leaf \<in> fst ` set ps" by force
      with True Cons.prems(1) show False by simp
    qed
    with True Cons.prems(2) show ?thesis by simp
  next
    case False
    have sub: "snd ` set (AList.update leaf img ps) \<subseteq> insert img (snd ` set ps)"
      by (induction ps) auto
    have "snd p \<noteq> img" using False Cons.prems(3) by (cases p) auto
    moreover have "snd p \<notin> snd ` set ps" using Cons.prems(2) by simp
    ultimately have "snd p \<notin> snd ` set (AList.update leaf img ps)" using sub by blast
    moreover have "distinct (map snd (AList.update leaf img ps))"
      using Cons.prems by (intro Cons.IH) auto
    ultimately show ?thesis using False by simp
  qed
qed

lemma relocked_values:
  assumes "distinct (map fst d)" "distinct (map snd d)"
  shows "distinct (map snd (relocked d leaf img))"
  unfolding relocked_def
  using assms by (intro update_values_distinct) (auto simp: distinct_map_filter)

lemma relocked_image_once:
  assumes "distinct (map fst d)"
  shows "(k, img) \<in> set (relocked d leaf img) \<longleftrightarrow> k = leaf"
proof -
  let ?f = "filter (\<lambda>(k, v). \<not> (k \<noteq> leaf \<and> v = img)) d"
  have df: "distinct (map fst ?f)" using assms by (simp add: distinct_map_filter)
  then have dr: "distinct (map fst (relocked d leaf img))"
    unfolding relocked_def by (rule distinct_update)
  have m: "map_of (relocked d leaf img) = (map_of ?f)(leaf \<mapsto> img)"
    unfolding relocked_def by (rule update_conv')
  show ?thesis
  proof
    assume "(k, img) \<in> set (relocked d leaf img)"
    then have "map_of (relocked d leaf img) k = Some img" using dr by simp
    then have "k = leaf \<or> map_of ?f k = Some img" using m by (auto split: if_splits)
    then show "k = leaf" by (auto dest!: map_of_SomeD)
  next
    assume "k = leaf"
    then have "map_of (relocked d leaf img) k = Some img" using m by simp
    then show "(k, img) \<in> set (relocked d leaf img)" by (rule map_of_SomeD)
  qed
qed

lemma handle_drop_done:
  assumes g1: "\<not> (pages_roots s = [] \<or> p \<ge> py_len (pages_roots s))"
    and pos: "py_pos (pages_perms s) p = Some j" "py_pos (pages_locks s) p = Some j"
    and dk: "distinct (map fst (pages_locks s ! j))"
    and leaf: "0 \<le> leaf" "leaf < py_len (pages_perms s ! j)"
    and img: "0 \<le> img" "img < py_len (image_paths s)"
  shows "handle_drop s p leaf img =
     Inr (s\<lparr>pages_perms := (pages_perms s)[j := placed (pages_perms s ! j) (nat leaf) img],
            pages_locks := (pages_locks s)[j := relocked (pages_locks s ! j) leaf img],
            image_crop_states := AList.update img False (image_crop_states s),
            forced_aspect_ratios := insert img (forced_aspect_ratios s)\<rparr>)"
proof -
  have ne: "pages_perms s ! j \<noteq> []" using leaf by (auto simp: py_len_def)
  have u: "unlock_others (pages_locks s ! j) leaf img (pages_locks s ! j) =
      Inr (filter (\<lambda>(k, v). \<not> (k \<noteq> leaf \<and> v = img)) (pages_locks s ! j))"
    using dk by (rule unlock_others_self)
  show ?thesis
    unfolding handle_drop_def
    using g1 ne leaf img
    by (simp add: py_getitem_def py_store_def pos u place_image_placed relocked_def)
qed

lemma handle_drop_page:
  assumes pe: "page_exists s p"
    and leaf: "0 \<le> leaf" "leaf < py_len (pages_perms s ! nat p)"
    and img: "0 \<le> img" "img < py_len (image_paths s)"
  shows "handle_drop s p leaf img =
     Inr (s\<lparr>pages_perms :=
              (pages_perms s)[nat p := placed (pages_perms s ! nat p) (nat leaf) img],
            pages_locks := (pages_locks s)[nat p := relocked (pages_locks s ! nat p) leaf img],
            image_crop_states := AList.update img False (image_crop_states s),
            forced_aspect_ratios := insert img (forced_aspect_ratios s)\<rparr>)"
proof (rule handle_drop_done)
  show "\<not> (pages_roots s = [] \<or> p \<ge> py_len (pages_roots s))"
    using pe by (auto simp: page_exists_def py_len_def)
  show "py_pos (pages_perms s) p = Some (nat p)" "py_pos (pages_locks s) p = Some (nat p)"
    using pe by (simp_all add: page_exists_def py_pos_nonneg)
  show "distinct (map fst (pages_locks s ! nat p))" using pe by (simp add: page_exists_def)
qed (use leaf img in simp_all)

lemma handle_drop_early:
  assumes pos: "py_pos (pages_perms s) p = Some j" "py_pos (pages_locks s) p = Some j"
    and out: "leaf < 0 \<or> leaf \<ge> py_len (pages_perms s ! j) \<or> img < 0
       \<or> img \<ge> py_len (image_paths s)"
  shows "handle_drop s p leaf img = Inr s"
  unfolding handle_drop_def using out by (auto simp: py_getitem_def pos)

lemma handle_drop_aligned:
  assumes al: "pages_aligned s" and p: "- py_len (pages_roots s) \<le> p"
  shows "handle_drop s p leaf img = Inr s \<or>
    (\<exists>j<length (pages_roots s). handle_drop s p leaf img =
       Inr (s\<lparr>pages_perms := (pages_perms s)[j := placed (pages_perms s ! j) (nat leaf) img],
            pages_locks := (pages_locks s)[j := relocked (pages_locks s ! j) leaf img],
            image_crop_states := AList.update img False (image_crop_states s),
            forced_aspect_ratios := insert img (forced_aspect_ratios s)\<rparr>))"
proof (cases "pages_roots s = [] \<or> p \<ge> py_len (pages_roots s)")
  case True
  then show ?thesis by (simp add: handle_drop_def)
next
  case False
  with p have "\<exists>j. py_pos (pages_roots s) p = Some j"
    by (cases "p < 0") (simp_all add: py_pos_def Let_def)
  then obtain j where pos: "py_pos (pages_roots s) p = Some j" ..
  have j: "j < length (pages_roots s)" using pos by (rule py_pos_less)
  have len: "py_len (pages_perms s) = py_len (pages_roots s)"
    "py_len (pages_locks s) = py_len (pages_roots s)"
    using al by (simp_all add: pages_aligned_def py_len_def)
  have pos': "py_pos (pages_perms s) p = Some j" "py_pos (pages_locks s) p = Some j"
    using pos len by (simp_all add: py_pos_def)
  have dk: "distinct (map fst (pages_locks s ! j))"
    using al j by (simp add: pages_aligned_def list_all_length)
  show ?thesis
  proof (cases "0 \<le> leaf \<and> leaf < py_len (pages_perms s ! j) \<and> 0 \<le> img
      \<and> img < py_len (image_paths s)")
    case True
    then have "handle_drop s p leaf img =
       Inr (s\<lparr>pages_perms := (pages_perms s)[j := placed (pages_perms s ! j) (nat leaf) img],
            pages_locks := (pages_locks s)[j := relocked (pages_locks s ! j) leaf img],
            image_crop_states := AList.update img False (image_crop_states s),
            forced_aspect_ratios := insert img (forced_aspect_ratios s)\<rparr>)"
      using False pos' dk by (intro handle_drop_done) simp_all
    with j show ?thesis by blast
  next
    case False
    then have "handle_drop s p leaf img = Inr s"
      by (intro handle_drop_early[OF pos']) auto
    then show ?thesis ..
  qed
qed

lemma placed_swap_or_overwrite:
  assumes l: "l < length perm"
  shows "swap_or_overwrite perm l img (placed perm l img)"
proof (cases "py_index perm img")
  case None
  then have "img \<notin> set perm" by (simp add: py_index_None)
  then have nex: "\<not> (\<exists>j<length perm. j \<noteq> l \<and> perm ! j = img)" by auto
  have "placed perm l img = perm[l := img]" using None by (simp add: placed_def)
  then show ?thesis unfolding swap_or_overwrite_def using nex by (simp only: if_False)
next
  case (Some c)
  from py_index_Some[OF Some]
  have c: "c < length perm" "perm ! c = img" "\<forall>k<c. perm ! k \<noteq> img" by auto
  have pl: "placed perm l img = (perm[l := perm ! c])[c := perm ! l]"
    using Some by (simp add: placed_def)
  show ?thesis
  proof (cases "c = l")
    case False
    with c have ex: "\<exists>j<length perm. j \<noteq> l \<and> perm ! j = img" by auto
    have "c < length perm \<and> c \<noteq> l \<and> perm ! c = img \<and> (\<forall>k<c. k \<noteq> l \<longrightarrow> perm ! k \<noteq> img)
        \<and> placed perm l img = (perm[l := perm ! c])[c := perm ! l]"
      using c False pl by simp
    then show ?thesis unfolding swap_or_overwrite_def using ex by (simp only: if_True) blast
  next
    case True
    then have same: "placed perm l img = perm" using pl c by simp
    show ?thesis
    proof (cases "\<exists>j<length perm. j \<noteq> l \<and> perm ! j = img")
      case False
      have "perm[l := img] = perm" using c(2) True by (metis list_update_id)
      then have "placed perm l img = perm[l := img]" using same by simp
      then show ?thesis unfolding swap_or_overwrite_def using False by (simp only: if_False)
    next
      case ex: True
      define j where "j = (LEAST j. j < length perm \<and> j \<noteq> l \<and> perm ! j = img)"
      from ex have "\<exists>j. j < length perm \<and> j \<noteq> l \<and> perm ! j = img" by blast
      then have j: "j < length perm \<and> j \<noteq> l \<and> perm ! j = img"
        unfolding j_def by (rule LeastI_ex)
      have least: "\<forall>k<j. k \<noteq> l \<longrightarrow> perm ! k \<noteq> img"
      proof (intro allI impI notI)
        fix k assume k: "k < j" "k \<noteq> l" "perm ! k = img"
        with j have "k < length perm \<and> k \<noteq> l \<and> perm ! k = img" by simp
        then have "j \<le> k" unfolding j_def by (rule Least_le)
        with k show False by simp
      qed
      have "(perm[l := perm ! j])[j := perm ! l] = perm"
        using j True c(2) by (metis list_update_id)
      with j least same have "j < length perm \<and> j \<noteq> l \<and> perm ! j = img
          \<and> (\<forall>k<j. k \<noteq> l \<longrightarrow> perm ! k \<noteq> img)
          \<and> placed perm l img = (perm[l := perm ! j])[j := perm ! l]" by simp
      then show ?thesis unfolding swap_or_overwrite_def using ex by (simp only: if_True) blast
    qed
  qed
qed

lemma page_exists_pos:
  "page_exists s p \<Longrightarrow> py_pos (pages_roots s) p = Some (nat p)"
  by (simp add: page_exists_def py_pos_nonneg)

lemma update_only_key:
  "distinct (map fst d) \<Longrightarrow>
   AList.update leaf img (filter (\<lambda>(k, v). k = leaf) d) = [(leaf, img)]"
proof (induction d)
  case Nil
  then show ?case by simp
next
  case (Cons p ps)
  show ?case
  proof (cases "fst p = leaf")
    case True
    with Cons.prems have "leaf \<notin> fst ` set ps" by auto
    then have "filter (\<lambda>(k, v). k = leaf) ps = []"
      by (force simp: filter_empty_conv)
    with True show ?thesis by (cases p) simp
  next
    case False
    with Cons show ?thesis by (cases p) simp
  qed
qed

lemma relocked_only_image:
  assumes "distinct (map fst d)" "\<forall>(k, v) \<in> set d. v = img"
  shows "relocked d leaf img = [(leaf, img)]"
proof -
  have "filter (\<lambda>(k, v). \<not> (k \<noteq> leaf \<and> v = img)) d = filter (\<lambda>(k, v). k = leaf) d"
    using assms(2) by (intro filter_cong) auto
  then show ?thesis using update_only_key[OF assms(1)] by (simp add: relocked_def)
qed

lemma handle_drop_keeps_invariants:
  assumes al: "pages_aligned s" and un: "locks_unique s"
    and p: "- py_len (pages_roots s) \<le> p"
  shows "\<exists>s'. handle_drop s p leaf img = Inr s' \<and> pages_aligned s' \<and> locks_unique s'
     \<and> pages_roots s' = pages_roots s"
proof -
  from handle_drop_aligned[OF al p, of leaf img]
  show ?thesis
  proof
    assume "handle_drop s p leaf img = Inr s"
    with al un show ?thesis by simp
  next
    assume "\<exists>j<length (pages_roots s). handle_drop s p leaf img =
       Inr (s\<lparr>pages_perms := (pages_perms s)[j := placed (pages_perms s ! j) (nat leaf) img],
            pages_locks := (pages_locks s)[j := relocked (pages_locks s ! j) leaf img],
            image_crop_states := AList.update img False (image_crop_states s),
            forced_aspect_ratios := insert img (forced_aspect_ratios s)\<rparr>)"
    then obtain j where j: "j < length (pages_roots s)"
      and eq: "handle_drop s p leaf img =
       Inr (s\<lparr>pages_perms := (pages_perms s)[j := placed (pages_perms s ! j) (nat leaf) img],
            pages_locks := (pages_locks s)[j := relocked (pages_locks s ! j) leaf img],
            image_crop_states := AList.update img False (image_crop_states s),
            forced_aspect_ratios := insert img (forced_aspect_ratios s)\<rparr>)" by blast
    have jl: "j < length (pages_locks s)" using al j by (simp add: pages_aligned_def)
    have dk: "distinct (map fst (pages_locks s ! j))"
      using al jl by (simp add: pages_aligned_def list_all_length)
    have dv: "distinct (map snd (pages_locks s ! j))"
      using un jl by (simp add: locks_unique_def list_all_length)
    have k': "list_all (\<lambda>d. distinct (map fst d))
        ((pages_locks s)[j := relocked (pages_locks s ! j) leaf img])"
      using al jl relocked_keys[OF dk, of leaf img]
      by (auto simp: pages_aligned_def list_all_length nth_list_update)
    have v': "list_all (\<lambda>d. distinct (map snd d))
        ((pages_locks s)[j := relocked (pages_locks s ! j) leaf img])"
      using un jl relocked_values[OF dk dv, of leaf img]
      by (auto simp: locks_unique_def list_all_length nth_list_update)
    show ?thesis
      using eq al k' v' by (simp add: pages_aligned_def locks_unique_def)
  qed
qed

lemma handle_drops_keep_invariants:
  assumes "pages_aligned s" "locks_unique s"
    and "list_all (\<lambda>op. - py_len (pages_roots s) \<le> fst op) ops"
  shows "\<exists>s'. handle_drops s ops = Inr s' \<and> pages_aligned s' \<and> locks_unique s'"
  using assms
proof (induction ops arbitrary: s)
  case Nil
  then show ?case by simp
next
  case (Cons op ops)
  obtain p leaf img where op: "op = (p, leaf, img)" by (cases op)
  from Cons.prems(3) op have p: "- py_len (pages_roots s) \<le> p"
    and rest: "list_all (\<lambda>op. - py_len (pages_roots s) \<le> fst op) ops" by auto
  from handle_drop_keeps_invariants[OF Cons.prems(1,2) p, of leaf img]
  obtain s1 where s1: "handle_drop s p leaf img = Inr s1" "pages_aligned s1" "locks_unique s1"
    "pages_roots s1 = pages_roots s" by blast
  from Cons.IH[OF s1(2,3)] rest s1(4)
  obtain s' where "handle_drops s1 ops = Inr s'" "pages_aligned s'" "locks_unique s'" by auto
  with s1(1) op show ?case by simp
qed

text \<open>
  Claim C1. On an existing page, with \<open>leaf_id\<close> and \<open>img_idx\<close> in bounds, \<open>handle_drop\<close>
  completes and changes only this page's permutation among the permutations, by the
  swap-or-overwrite rule: if the image occupies a leaf \<open>j\<close> other than \<open>leaf_id\<close>, the
  contents of \<open>j\<close> and \<open>leaf_id\<close> are swapped, otherwise \<open>leaf_id\<close> is overwritten. The
  image ends at \<open>leaf_id\<close>, and no lock value other than the image is created, so a
  displaced image gets no lock. On a page \<open>[A, B, C, D]\<close> of distinct images whose locks, if
  any, are locks of \<open>B\<close>, locking leaf 2 to \<open>B\<close> gives \<open>[A, C, B, D]\<close> and the locks
  \<open>{2: B}\<close>.
\<close>

theorem handle_drop_swap_or_overwrite:
  assumes "page_exists s p"
    and "0 \<le> leaf_id" "leaf_id < py_len (pages_perms s ! nat p)"
    and "0 \<le> img_idx" "img_idx < py_len (image_paths s)"
  shows "\<exists>s'. handle_drop s p leaf_id img_idx = Inr s'
     \<and> pages_perms s' = (pages_perms s)[nat p := pages_perms s' ! nat p]
     \<and> swap_or_overwrite (pages_perms s ! nat p) (nat leaf_id) img_idx (pages_perms s' ! nat p)
     \<and> pages_perms s' ! nat p ! nat leaf_id = img_idx
     \<and> snd ` set (pages_locks s' ! nat p) \<subseteq> insert img_idx (snd ` set (pages_locks s ! nat p))
     \<and> (\<forall>A B C D. pages_perms s ! nat p = [A, B, C, D] \<and> distinct [A, B, C, D]
            \<and> leaf_id = 2 \<and> img_idx = B \<and> snd ` set (pages_locks s ! nat p) \<subseteq> {B}
          \<longrightarrow> pages_perms s' ! nat p = [A, C, B, D] \<and> pages_locks s' ! nat p = [(2, B)])"
proof -
  let ?perm = "pages_perms s ! nat p" and ?locked = "pages_locks s ! nat p"
  let ?s' = "s\<lparr>pages_perms := (pages_perms s)[nat p := placed ?perm (nat leaf_id) img_idx],
            pages_locks := (pages_locks s)[nat p := relocked ?locked leaf_id img_idx],
            image_crop_states := AList.update img_idx False (image_crop_states s),
            forced_aspect_ratios := insert img_idx (forced_aspect_ratios s)\<rparr>"
  have run: "handle_drop s p leaf_id img_idx = Inr ?s'"
    using assms by (rule handle_drop_page)
  have pl: "nat p < length (pages_perms s)" "nat p < length (pages_locks s)"
    and dk: "distinct (map fst ?locked)"
    using assms(1) by (auto simp: page_exists_def py_len_def)
  have l: "nat leaf_id < length ?perm" using assms(2,3) by (simp add: py_len_def)
  have perm': "pages_perms ?s' ! nat p = placed ?perm (nat leaf_id) img_idx"
    and locked': "pages_locks ?s' ! nat p = relocked ?locked leaf_id img_idx"
    using pl by simp_all
  have a: "pages_perms ?s' = (pages_perms s)[nat p := pages_perms ?s' ! nat p]"
    using pl by simp
  have b: "swap_or_overwrite ?perm (nat leaf_id) img_idx (pages_perms ?s' ! nat p)"
    unfolding perm' using l by (rule placed_swap_or_overwrite)
  have c: "pages_perms ?s' ! nat p ! nat leaf_id = img_idx"
    unfolding perm' using l by (rule placed_at_leaf)
  have d: "snd ` set (pages_locks ?s' ! nat p) \<subseteq> insert img_idx (snd ` set ?locked)"
  proof -
    have "snd ` set (AList.update leaf_id img_idx xs) \<subseteq> insert img_idx (snd ` set xs)"
      for xs :: "(int \<times> int) list"
      by (induction xs) auto
    then have "snd ` set (relocked ?locked leaf_id img_idx) \<subseteq> insert img_idx (snd ` set ?locked)"
      unfolding relocked_def by fastforce
    then show ?thesis unfolding locked' .
  qed
  have e: "\<forall>A B C D. ?perm = [A, B, C, D] \<and> distinct [A, B, C, D]
            \<and> leaf_id = 2 \<and> img_idx = B \<and> snd ` set ?locked \<subseteq> {B}
          \<longrightarrow> pages_perms ?s' ! nat p = [A, C, B, D] \<and> pages_locks ?s' ! nat p = [(2, B)]"
  proof (intro allI impI, elim conjE)
    fix A B C D
    assume h: "?perm = [A, B, C, D]" "distinct [A, B, C, D]" "leaf_id = 2" "img_idx = B"
      "snd ` set ?locked \<subseteq> {B}"
    have "placed [A, B, C, D] 2 B = [A, C, B, D]"
      using h(2) by (simp add: placed_def)
    moreover have "relocked ?locked 2 B = [(2, B)]"
      using dk h(5) by (intro relocked_only_image) auto
    ultimately show "pages_perms ?s' ! nat p = [A, C, B, D] \<and> pages_locks ?s' ! nat p = [(2, B)]"
      unfolding perm' locked' using h by simp
  qed
  show ?thesis
    using run a b c d e by (intro exI[of _ ?s'] conjI)
qed

theorem handle_drop_swap_or_overwrite_witness:
  "page_exists page4 0 \<and> (0::int) \<le> 2 \<and> 2 < py_len (pages_perms page4 ! nat 0)
   \<and> (0::int) \<le> 1 \<and> 1 < py_len (image_paths page4)
   \<and> (\<exists>s'. handle_drop page4 0 2 1 = Inr s' \<and> pages_perms s' ! 0 = [0, 2, 1, 3]
          \<and> pages_locks s' ! 0 = [(2, 1)])"
proof -
  have h: "page_exists page4 0" "(0::int) \<le> 2" "2 < py_len (pages_perms page4 ! nat 0)"
    "(0::int) \<le> 1" "1 < py_len (image_paths page4)"
    by (simp_all add: page_exists_def page4_def album4_def py_len_def)
  from handle_drop_swap_or_overwrite[OF h]
  obtain s' where s': "handle_drop page4 0 2 1 = Inr s'"
    and sc: "\<forall>A B C D. pages_perms page4 ! nat 0 = [A, B, C, D] \<and> distinct [A, B, C, D]
            \<and> (2::int) = 2 \<and> (1::int) = B \<and> snd ` set (pages_locks page4 ! nat 0) \<subseteq> {B}
          \<longrightarrow> pages_perms s' ! nat 0 = [A, C, B, D] \<and> pages_locks s' ! nat 0 = [(2, B)]"
    by blast
  from sc[rule_format, of 0 1 2 3]
  have "pages_perms s' ! 0 = [0, 2, 1, 3] \<and> pages_locks s' ! 0 = [(2, 1)]"
    by (simp add: page4_def album4_def)
  with s' h show ?thesis by blast
qed

text \<open>
  Claim C2. From a state whose lock dictionaries have no repeated value, after every
  prefix of a sequence of drops no image is the value of two locks of one page (page
  subscripts below \<open>-len\<close> raise IndexError and are excluded). A completed drop leaves the
  image locked on the target leaf only: its lock on any other leaf of the page is removed.
\<close>

theorem handle_drops_locks_unique:
  assumes "pages_aligned s" and "locks_unique s"
    and "list_all (\<lambda>op. - py_len (pages_roots s) \<le> fst op) ops"
  shows "(\<forall>n\<le>length ops. \<exists>s'. handle_drops s (take n ops) = Inr s' \<and> locks_unique s')
    \<and> (\<forall>p leaf_id img_idx k.
          page_exists s p \<and> 0 \<le> leaf_id \<and> leaf_id < py_len (pages_perms s ! nat p)
          \<and> 0 \<le> img_idx \<and> img_idx < py_len (image_paths s)
          \<longrightarrow> (\<exists>s'. handle_drop s p leaf_id img_idx = Inr s'
                \<and> ((k, img_idx) \<in> set (pages_locks s' ! nat p) \<longleftrightarrow> k = leaf_id)))"
proof (intro conjI allI impI)
  fix n assume "n \<le> length ops"
  have "list_all (\<lambda>op. - py_len (pages_roots s) \<le> fst op) (take n ops)"
    using assms(3) by (auto simp: list_all_iff dest: in_set_takeD)
  from handle_drops_keep_invariants[OF assms(1,2) this]
  show "\<exists>s'. handle_drops s (take n ops) = Inr s' \<and> locks_unique s'" by blast
next
  fix p leaf_id img_idx k
  assume h: "page_exists s p \<and> 0 \<le> leaf_id \<and> leaf_id < py_len (pages_perms s ! nat p)
          \<and> 0 \<le> img_idx \<and> img_idx < py_len (image_paths s)"
  let ?s' = "s\<lparr>pages_perms :=
              (pages_perms s)[nat p := placed (pages_perms s ! nat p) (nat leaf_id) img_idx],
            pages_locks :=
              (pages_locks s)[nat p := relocked (pages_locks s ! nat p) leaf_id img_idx],
            image_crop_states := AList.update img_idx False (image_crop_states s),
            forced_aspect_ratios := insert img_idx (forced_aspect_ratios s)\<rparr>"
  have run: "handle_drop s p leaf_id img_idx = Inr ?s'"
    using h by (intro handle_drop_page) simp_all
  have pl: "nat p < length (pages_locks s)"
    and dk: "distinct (map fst (pages_locks s ! nat p))"
    using h by (auto simp: page_exists_def py_len_def)
  have "pages_locks ?s' ! nat p = relocked (pages_locks s ! nat p) leaf_id img_idx"
    using pl by simp
  then have "(k, img_idx) \<in> set (pages_locks ?s' ! nat p) \<longleftrightarrow> k = leaf_id"
    using relocked_image_once[OF dk, of k img_idx leaf_id] by simp
  with run show "\<exists>s'. handle_drop s p leaf_id img_idx = Inr s'
                \<and> ((k, img_idx) \<in> set (pages_locks s' ! nat p) \<longleftrightarrow> k = leaf_id)"
    by blast
qed

theorem handle_drops_locks_unique_witness:
  "pages_aligned page4 \<and> locks_unique page4
   \<and> list_all (\<lambda>op. - py_len (pages_roots page4) \<le> fst op) [(0, 0, 1), (0, 2, 1), (0, 9, 1)]
   \<and> (\<exists>s'. handle_drops page4 [(0, 0, 1), (0, 2, 1), (0, 9, 1)] = Inr s' \<and> locks_unique s')"
proof -
  have h: "pages_aligned page4" "locks_unique page4"
    "list_all (\<lambda>op. - py_len (pages_roots page4) \<le> fst op) [(0, 0, 1), (0, 2, 1), (0, 9, 1)]"
    by (simp_all add: pages_aligned_def locks_unique_def page4_def album4_def py_len_def)
  from handle_drops_locks_unique[OF h]
  have "\<forall>n\<le>length [(0::int, 0::int, 1::int), (0, 2, 1), (0, 9, 1)].
     \<exists>s'. handle_drops page4 (take n [(0, 0, 1), (0, 2, 1), (0, 9, 1)]) = Inr s' \<and> locks_unique s'"
    by blast
  from this[rule_format, of 3]
  have "\<exists>s'. handle_drops page4 [(0, 0, 1), (0, 2, 1), (0, 9, 1)] = Inr s' \<and> locks_unique s'"
    by simp
  with h show ?thesis by blast
qed

text \<open>
  Claim C8. On an existing page, a drop whose \<open>leaf_id\<close> is outside the page's
  permutation or whose \<open>img_idx\<close> is outside the image list returns early: the whole
  state, and with it the permutation, the locks, the crop states and the forced aspects,
  is unchanged. The source signals nothing else in this case; the early return is what the
  specification calls OutOfRange.
\<close>

theorem handle_drop_out_of_range:
  assumes "page_exists s p"
    and "leaf_id < 0 \<or> leaf_id \<ge> py_len (pages_perms s ! nat p)
       \<or> img_idx < 0 \<or> img_idx \<ge> py_len (image_paths s)"
  shows "handle_drop s p leaf_id img_idx = Inr s"
proof (rule handle_drop_early)
  show "py_pos (pages_perms s) p = Some (nat p)" "py_pos (pages_locks s) p = Some (nat p)"
    using assms(1) by (simp_all add: page_exists_def py_pos_nonneg)
  show "leaf_id < 0 \<or> leaf_id \<ge> py_len (pages_perms s ! nat p)
       \<or> img_idx < 0 \<or> img_idx \<ge> py_len (image_paths s)" by (rule assms(2))
qed

theorem handle_drop_out_of_range_witness:
  "page_exists page4 0
   \<and> ((4::int) < 0 \<or> 4 \<ge> py_len (pages_perms page4 ! nat 0)
       \<or> (1::int) < 0 \<or> 1 \<ge> py_len (image_paths page4))
   \<and> handle_drop page4 0 4 1 = Inr page4
   \<and> handle_drop page4 0 2 5 = Inr page4
   \<and> handle_drop page4 0 (- 1) 1 = Inr page4"
proof -
  have h: "page_exists page4 0"
    by (simp add: page_exists_def page4_def album4_def py_len_def)
  have a: "(4::int) < 0 \<or> 4 \<ge> py_len (pages_perms page4 ! nat 0)
       \<or> (1::int) < 0 \<or> 1 \<ge> py_len (image_paths page4)"
    by (simp add: page4_def album4_def py_len_def)
  have b: "(2::int) < 0 \<or> 2 \<ge> py_len (pages_perms page4 ! nat 0)
       \<or> (5::int) < 0 \<or> 5 \<ge> py_len (image_paths page4)"
    by (simp add: page4_def album4_def py_len_def)
  have c: "(- 1::int) < 0 \<or> - 1 \<ge> py_len (pages_perms page4 ! nat 0)
       \<or> (1::int) < 0 \<or> 1 \<ge> py_len (image_paths page4)"
    by simp
  show ?thesis
    using h a handle_drop_out_of_range[OF h a] handle_drop_out_of_range[OF h b]
      handle_drop_out_of_range[OF h c] by blast
qed

text \<open>
  Claim C10. A completed drop also sets the crop state of the dropped image to \<open>False\<close>
  and adds the image to the forced aspect ratios; both fields change whenever they did not
  hold these values before.
\<close>

theorem handle_drop_crop_and_aspect:
  assumes "page_exists s p"
    and "0 \<le> leaf_id" "leaf_id < py_len (pages_perms s ! nat p)"
    and "0 \<le> img_idx" "img_idx < py_len (image_paths s)"
  shows "\<exists>s'. handle_drop s p leaf_id img_idx = Inr s'
     \<and> image_crop_states s' = AList.update img_idx False (image_crop_states s)
     \<and> map_of (image_crop_states s') img_idx = Some False
     \<and> forced_aspect_ratios s' = insert img_idx (forced_aspect_ratios s)
     \<and> (map_of (image_crop_states s) img_idx \<noteq> Some False
          \<longrightarrow> image_crop_states s' \<noteq> image_crop_states s)
     \<and> (img_idx \<notin> forced_aspect_ratios s
          \<longrightarrow> forced_aspect_ratios s' \<noteq> forced_aspect_ratios s)"
proof -
  let ?s' = "s\<lparr>pages_perms :=
              (pages_perms s)[nat p := placed (pages_perms s ! nat p) (nat leaf_id) img_idx],
            pages_locks :=
              (pages_locks s)[nat p := relocked (pages_locks s ! nat p) leaf_id img_idx],
            image_crop_states := AList.update img_idx False (image_crop_states s),
            forced_aspect_ratios := insert img_idx (forced_aspect_ratios s)\<rparr>"
  have run: "handle_drop s p leaf_id img_idx = Inr ?s'"
    using assms by (rule handle_drop_page)
  have m: "map_of (AList.update img_idx False (image_crop_states s)) img_idx = Some False"
    by (simp add: update_conv')
  have "map_of (image_crop_states s) img_idx \<noteq> Some False
      \<longrightarrow> AList.update img_idx False (image_crop_states s) \<noteq> image_crop_states s"
    using m by auto
  moreover have "img_idx \<notin> forced_aspect_ratios s
      \<longrightarrow> insert img_idx (forced_aspect_ratios s) \<noteq> forced_aspect_ratios s"
    by auto
  ultimately show ?thesis
    using run m by (intro exI[of _ ?s']) simp
qed

theorem handle_drop_crop_and_aspect_witness:
  "page_exists page4 0 \<and> (0::int) \<le> 2 \<and> 2 < py_len (pages_perms page4 ! nat 0)
   \<and> (0::int) \<le> 1 \<and> 1 < py_len (image_paths page4)
   \<and> (\<exists>s'. handle_drop page4 0 2 1 = Inr s' \<and> image_crop_states s' = [(1, False)]
          \<and> forced_aspect_ratios s' = {1}
          \<and> image_crop_states s' \<noteq> image_crop_states page4
          \<and> forced_aspect_ratios s' \<noteq> forced_aspect_ratios page4)"
proof -
  have h: "page_exists page4 0" "(0::int) \<le> 2" "2 < py_len (pages_perms page4 ! nat 0)"
    "(0::int) \<le> 1" "1 < py_len (image_paths page4)"
    by (simp_all add: page_exists_def page4_def album4_def py_len_def)
  from handle_drop_crop_and_aspect[OF h]
  obtain s' where s': "handle_drop page4 0 2 1 = Inr s'"
    "image_crop_states s' = AList.update 1 False (image_crop_states page4)"
    "forced_aspect_ratios s' = insert 1 (forced_aspect_ratios page4)"
    by blast
  have "image_crop_states s' = [(1, False)]" "forced_aspect_ratios s' = {1}"
    using s'(2,3) by (simp_all add: page4_def album4_def)
  moreover have "image_crop_states page4 = []" "forced_aspect_ratios page4 = {}"
    by (simp_all add: page4_def album4_def)
  ultimately show ?thesis using s'(1) h by auto
qed

section \<open>Facts about init\_trees\<close>

lemma py_ints_cases:
  "(\<exists>p\<in>set ss. py_strip p \<noteq> [] \<and> py_int (py_strip p) = None) \<and> py_ints ss = Inl ValueError
   \<or> (\<exists>cs. py_ints ss = Inr cs \<and>
        map Some cs = map (\<lambda>p. py_int (py_strip p)) (filter (\<lambda>p. py_strip p \<noteq> []) ss))"
proof (induction ss)
  case Nil
  then show ?case by simp
next
  case (Cons s ss)
  show ?case
  proof (cases "py_strip s = []")
    case True
    with Cons show ?thesis by auto
  next
    case False
    show ?thesis
    proof (cases "py_int (py_strip s)")
      case None
      with False show ?thesis by auto
    next
      case (Some c)
      from Cons show ?thesis
      proof
        assume "(\<exists>p\<in>set ss. py_strip p \<noteq> [] \<and> py_int (py_strip p) = None)
          \<and> py_ints ss = Inl ValueError"
        with False Some show ?thesis by auto
      next
        assume "\<exists>cs. py_ints ss = Inr cs \<and>
          map Some cs = map (\<lambda>p. py_int (py_strip p)) (filter (\<lambda>p. py_strip p \<noteq> []) ss)"
        then obtain cs where "py_ints ss = Inr cs"
          "map Some cs = map (\<lambda>p. py_int (py_strip p)) (filter (\<lambda>p. py_strip p \<noteq> []) ss)"
          by blast
        with False Some show ?thesis by auto
      qed
    qed
  qed
qed

lemma check_counts_eq:
  "check_counts ext cs = (if list_all (is_power_of_two ext) cs then Inr () else Inl ValueError)"
  by (induction cs) auto

lemma read_config_invalid:
  assumes spin: "1 \<le> num_pages_spin s" and inv: "invalid_config ext s"
  shows "\<exists>v. read_config ext s = (Inl ValueError, s\<lparr>num_pages_spin := v\<rparr>)"
proof -
  let ?cfg = "py_strip (page_config_edit s)"
  let ?bad = "\<lambda>c. case c of None \<Rightarrow> True | Some n \<Rightarrow> \<not> is_power_of_two ext n"
  have same: "s = s\<lparr>num_pages_spin := num_pages_spin s\<rparr>" by simp
  show ?thesis
  proof (cases "CHR '','' \<in> set ?cfg")
    case True
    let ?pieces = "py_split (CHR '','') ?cfg"
    from inv True have ex: "list_ex ?bad
        (map (\<lambda>p. py_int (py_strip p)) (filter (\<lambda>p. py_strip p \<noteq> []) ?pieces))"
      by (simp add: invalid_config_def config_counts_def Let_def)
    from py_ints_cases[of ?pieces] show ?thesis
    proof
      assume "(\<exists>p\<in>set ?pieces. py_strip p \<noteq> [] \<and> py_int (py_strip p) = None)
          \<and> py_ints ?pieces = Inl ValueError"
      then have "read_config ext s = (Inl ValueError, s)"
        using True by (simp add: read_config_def)
      with same show ?thesis by metis
    next
      assume "\<exists>cs. py_ints ?pieces = Inr cs \<and>
          map Some cs = map (\<lambda>p. py_int (py_strip p)) (filter (\<lambda>p. py_strip p \<noteq> []) ?pieces)"
      then obtain cs where cs: "py_ints ?pieces = Inr cs"
        "map Some cs = map (\<lambda>p. py_int (py_strip p)) (filter (\<lambda>p. py_strip p \<noteq> []) ?pieces)"
        by blast
      from ex cs(2) have "list_ex ?bad (map Some cs)" by simp
      then have "\<not> list_all (is_power_of_two ext) cs"
        by (auto simp: list_ex_iff list_all_iff)
      then have "read_config ext s =
          (Inl ValueError, s\<lparr>num_pages_spin := qspin_set_value (py_len cs)\<rparr>)"
        using True cs(1) by (simp add: read_config_def check_counts_eq Let_def)
      then show ?thesis by blast
    qed
  next
    case False
    let ?c = "if ?cfg \<noteq> [] then py_int ?cfg else Some 4"
    from inv False have ex: "list_ex ?bad (replicate (nat (num_pages_spin s)) ?c)"
      by (simp add: invalid_config_def config_counts_def Let_def)
    then have bad: "?bad ?c" by (auto simp: list_ex_iff)
    have "read_config ext s = (Inl ValueError, s)"
    proof (cases ?c)
      case None
      with False show ?thesis by (simp add: read_config_def)
    next
      case (Some n)
      with bad have "\<not> is_power_of_two ext n" by simp
      moreover have "n \<in> set (replicate (nat (num_pages_spin s)) n)" using spin by simp
      ultimately have "\<not> list_all (is_power_of_two ext) (replicate (nat (num_pages_spin s)) n)"
        unfolding list_all_iff by blast
      with False Some show ?thesis
        by (simp add: read_config_def check_counts_eq Let_def)
    qed
    with same show ?thesis by metis
  qed
qed

lemma read_config_state:
  "read_config ext s = (r, s1) \<Longrightarrow> \<exists>v. s1 = s\<lparr>num_pages_spin := v\<rparr>"
proof -
  assume a: "read_config ext s = (r, s1)"
  have same: "s = s\<lparr>num_pages_spin := num_pages_spin s\<rparr>" by simp
  from a have "s1 = s \<or> (\<exists>v. s1 = s\<lparr>num_pages_spin := v\<rparr>)"
    by (auto simp: read_config_def Let_def split: if_splits sum.splits option.splits)
  with same show ?thesis by metis
qed

lemma build_trees_Inr:
  "build_trees ext cs i = Inr roots \<Longrightarrow>
   length roots = length cs \<and>
   (\<forall>j<length cs. \<exists>tree. roots ! j = Some tree
       \<and> build_full_tree ext (cs ! j) (42 + int (i + j)) = Some tree)"
proof (induction cs arbitrary: i roots)
  case Nil
  then show ?case by simp
next
  case (Cons c cs)
  from Cons.prems obtain tree roots' where t: "build_full_tree ext c (42 + int i) = Some tree"
    and r: "build_trees ext cs (Suc i) = Inr roots'" and eq: "roots = Some tree # roots'"
    by (auto split: option.splits sum.splits)
  from Cons.IH[OF r] have len: "length roots' = length cs"
    and ih: "\<forall>j<length cs. \<exists>tree. roots' ! j = Some tree
       \<and> build_full_tree ext (cs ! j) (42 + int (Suc i + j)) = Some tree" by auto
  show ?case
  proof (intro conjI allI impI)
    show "length roots = length (c # cs)" using len eq by simp
  next
    fix j assume "j < length (c # cs)"
    then show "\<exists>tree. roots ! j = Some tree
       \<and> build_full_tree ext ((c # cs) ! j) (42 + int (i + j)) = Some tree"
      using t ih eq by (cases j) auto
  qed
qed

lemma build_trees_counts:
  assumes "builds_requested_leaves ext" and "build_trees ext cs i = Inr roots"
  shows "cs = map (leaf_count ext) roots"
proof -
  from build_trees_Inr[OF assms(2)] have len: "length roots = length cs"
    and el: "\<forall>j<length cs. \<exists>tree. roots ! j = Some tree
       \<and> build_full_tree ext (cs ! j) (42 + int (i + j)) = Some tree" by auto
  show ?thesis
  proof (rule nth_equalityI)
    show "length cs = length (map (leaf_count ext) roots)" using len by simp
  next
    fix j assume "j < length cs"
    with el obtain tree where "roots ! j = Some tree"
      "build_full_tree ext (cs ! j) (42 + int (i + j)) = Some tree" by blast
    with assms(1) \<open>j < length cs\<close> len show "cs ! j = map (leaf_count ext) roots ! j"
      by (simp add: builds_requested_leaves_def)
  qed
qed

lemma fold_delete_filter:
  "fold AList.delete ks d = filter (\<lambda>(k, v). k \<notin> set ks) d"
proof (induction ks arbitrary: d)
  case Nil
  then show ?case by simp
next
  case (Cons k ks)
  have "fold AList.delete (k # ks) d = filter (\<lambda>(k', v). k' \<notin> set ks) (AList.delete k d)"
    using Cons.IH by simp
  also have "\<dots> = filter (\<lambda>(k', v). k' \<notin> set (k # ks)) d"
    unfolding AList.delete_eq filter_filter by (intro filter_cong) auto
  finally show ?case .
qed

lemma clear_locks_filter:
  "clear_locks locks limit = filter (\<lambda>(k, v). k < limit) locks"
  unfolding clear_locks_def Let_def fold_delete_filter
  by (intro filter_cong) force+

lemma configure_pages_end:
  assumes "configure_pages ext page_counts s g = (Return_end, s', g')"
  shows "\<exists>pool g1. build_trees ext page_counts 0 = Inr (pages_roots s')
     \<and> random_shuffle (map int [0..<length (image_paths s)]) g = (pool, g1)
     \<and> deal_perms pool (py_len (image_paths s)) page_counts 0 g1 = (pages_perms s', g')
     \<and> pages_locks s' =
          (if length (pages_locks s) \<noteq> length page_counts
           then replicate (length page_counts) []
           else map (\<lambda>(locks, limit). clear_locks locks limit) (zip (pages_locks s) page_counts))"
proof -
  obtain pool g1 where sh: "random_shuffle (map int [0..<length (image_paths s)]) g = (pool, g1)"
    by (cases "random_shuffle (map int [0..<length (image_paths s)]) g")
  obtain perms g2 where dl: "deal_perms pool (py_len (image_paths s)) page_counts 0 g1 = (perms, g2)"
    by (cases "deal_perms pool (py_len (image_paths s)) page_counts 0 g1")
  show ?thesis
  proof (cases "build_trees ext page_counts 0")
    case (Inl e)
    with assms show ?thesis by (simp add: configure_pages_def Let_def)
  next
    case (Inr roots)
    with assms sh dl show ?thesis by (auto simp: configure_pages_def Let_def)
  qed
qed

lemma init_trees_end:
  assumes "init_trees ext s g = (Return_end, s', g')"
  shows "\<exists>page_counts pool g1. page_counts \<noteq> [] \<and> image_paths s \<noteq> []
     \<and> build_trees ext page_counts 0 = Inr (pages_roots s')
     \<and> random_shuffle (map int [0..<length (image_paths s)]) g = (pool, g1)
     \<and> deal_perms pool (py_len (image_paths s)) page_counts 0 g1 = (pages_perms s', g')
     \<and> pages_locks s' =
          (if length (pages_locks s) \<noteq> length page_counts
           then replicate (length page_counts) []
           else map (\<lambda>(locks, limit). clear_locks locks limit) (zip (pages_locks s) page_counts))"
proof -
  obtain r s1 where rc: "read_config ext s = (r, s1)" by (cases "read_config ext s")
  from read_config_state[OF rc] obtain v where s1: "s1 = s\<lparr>num_pages_spin := v\<rparr>" ..
  have ne: "image_paths s \<noteq> []"
    using assms by (auto simp: init_trees_def py_len_def split: if_splits)
  from assms ne rc obtain page_counts where fc: "fallback_counts r s1 = Some page_counts"
    and cp: "configure_pages ext page_counts s1 g = (Return_end, s', g')"
    by (cases "fallback_counts r s1") (auto simp: init_trees_def py_len_def)
  have pne: "page_counts \<noteq> []"
    using fc by (auto simp: fallback_counts_def split: sum.splits if_splits option.splits)
  from configure_pages_end[OF cp] s1 pne ne show ?thesis by auto
qed

lemma log2_nat_power: "log2_nat (2 ^ k) = k"
proof (induction k)
  case 0
  then show ?case by (simp add: log2_nat.simps)
next
  case (Suc k)
  have "(2::nat) ^ k \<ge> 1" by simp
  then have "2 * (2::nat) ^ k > 1" by linarith
  then have "\<not> (2::nat) ^ Suc k \<le> 1" by simp
  then have "log2_nat (2 ^ Suc k) = Suc (log2_nat (2 ^ Suc k div 2))"
    by (subst log2_nat.simps) (simp only: if_False)
  with Suc show ?case by simp
qed

lemma length_leaf_ids_full_tree:
  "length (model_leaf_ids (Some (full_tree d first_id seed))) = 2 ^ d"
  by (induction d arbitrary: first_id) simp_all

lemma model_builds_requested_leaves: "builds_requested_leaves model_externals"
  unfolding builds_requested_leaves_def
proof (intro allI impI)
  fix n seed and tree :: "rat node"
  assume b: "build_full_tree model_externals n seed = Some tree"
  then have p: "model_is_power_of_two n"
    and t: "tree = full_tree (log2_nat (nat n)) 0 seed"
    by (auto simp: model_externals_def model_build_full_tree_def split: if_splits)
  from p obtain k where k: "n = 2 ^ k" by (auto simp: model_is_power_of_two_def)
  then have "nat n = 2 ^ k" by (simp add: nat_power_eq)
  then have "log2_nat (nat n) = k" by (simp only: log2_nat_power)
  with t have "length (model_leaf_ids (Some tree)) = 2 ^ k"
    by (simp add: length_leaf_ids_full_tree)
  with k show "leaf_count model_externals (Some tree) = n"
    by (simp add: leaf_count_def model_externals_def py_len_def)
qed

lemma randbelow_less: "0 < n \<Longrightarrow> fst (randbelow n g) < nat n"
  by (simp add: randbelow_def nat_less_iff)

lemma shuffle_from_mset:
  "i < length x \<Longrightarrow> shuffle_from i x g = (y, g') \<Longrightarrow> mset y = mset x"
proof (induction i arbitrary: x g)
  case 0
  then show ?case by simp
next
  case (Suc i)
  obtain j g1 where rb: "randbelow (int (Suc i) + 1) g = (j, g1)"
    by (cases "randbelow (int (Suc i) + 1) g")
  then have j: "j < Suc i + 1" using randbelow_less[of "int (Suc i) + 1" g] by simp
  with Suc.prems(1) have jl: "j < length x" by simp
  let ?x = "(x[Suc i := x ! j])[j := x ! Suc i]"
  from Suc.prems(2) rb have "shuffle_from i ?x g1 = (y, g')" by simp
  moreover have "i < length ?x" using Suc.prems(1) by simp
  ultimately have "mset y = mset ?x" by (rule Suc.IH[rotated])
  also have "mset ?x = mset x" using Suc.prems(1) jl by (simp add: mset_swap)
  finally show ?case .
qed

lemma random_shuffle_mset:
  assumes "random_shuffle x g = (y, g')"
  shows "mset y = mset x"
proof (cases "x = []")
  case True
  with assms show ?thesis by (simp add: random_shuffle_def)
next
  case False
  then have "length x - 1 < length x" by simp
  with assms show ?thesis unfolding random_shuffle_def by (rule shuffle_from_mset[rotated])
qed

lemma random_choice_in:
  "seq \<noteq> [] \<Longrightarrow> random_choice seq g = (x, g') \<Longrightarrow> x \<in> set seq"
  using randbelow_less[of "py_len seq" g]
  by (auto simp: random_choice_def py_len_def split: prod.splits)

lemma pad_perm_result:
  assumes "pool \<noteq> []" and "total_images > 0"
    and "pad_perm pool total_images page_perm n g = (res, g')"
  shows "\<exists>pad. res = page_perm @ pad \<and> set pad \<subseteq> set pool
     \<and> (pad \<noteq> [] \<longrightarrow> py_len page_perm < n)
     \<and> (py_len page_perm \<le> n \<longrightarrow> py_len res = n)"
  using assms
proof (induction pool total_images page_perm n g arbitrary: res g' rule: pad_perm.induct)
  case (1 pool total_images page_perm n g)
  show ?case
  proof (cases "py_len page_perm < n")
    case False
    with "1.prems"(3) have "res = page_perm" by (simp add: pad_perm.simps)
    with False show ?thesis by (auto simp: py_len_def)
  next
    case True
    obtain x g1 where ch: "random_choice pool g = (x, g1)" by (cases "random_choice pool g")
    from random_choice_in[OF "1.prems"(1) ch] have x: "x \<in> set pool" .
    from "1.prems"(3) True "1.prems"(2) ch
    have rec: "pad_perm pool total_images (page_perm @ [x]) n g1 = (res, g')"
      by (simp add: pad_perm.simps[of pool total_images page_perm])
    from "1.IH"(1)[OF True "1.prems"(2) ch[symmetric] "1.prems"(1,2) rec]
    obtain pad where pad: "res = (page_perm @ [x]) @ pad" "set pad \<subseteq> set pool"
      "py_len (page_perm @ [x]) \<le> n \<longrightarrow> py_len res = n" by blast
    have "py_len (page_perm @ [x]) \<le> n" using True by (simp add: py_len_def)
    with pad(3) have "py_len res = n" by simp
    with pad(1,2) x True show ?thesis
      by (intro exI[of _ "x # pad"]) simp
  qed
qed

lemma py_slice_take_drop:
  assumes "0 \<le> cur" and "0 \<le> c"
  shows "py_slice pool cur (min (cur + c) (py_len pool)) = take (nat c) (drop (nat cur) pool)"
proof (cases "cur \<le> py_len pool")
  case True
  have "py_slice pool cur (min (cur + c) (py_len pool)) =
      take (nat (min (cur + c) (py_len pool) - cur)) (drop (nat cur) pool)"
    using assms True by (simp add: py_slice_def Let_def min_def)
  also have "\<dots> = take (nat c) (drop (nat cur) pool)"
  proof (cases "cur + c \<le> py_len pool")
    case True
    then show ?thesis by (simp add: min_def)
  next
    case False
    then have "length (drop (nat cur) pool) \<le> nat c" "length (drop (nat cur) pool) \<le> nat (py_len pool - cur)"
      using assms by (simp_all add: py_len_def)
    with False show ?thesis by (simp add: min_def)
  qed
  finally show ?thesis .
next
  case False
  then have "drop (nat cur) pool = []" by (simp add: py_len_def)
  moreover have "py_slice pool cur (min (cur + c) (py_len pool)) = []"
    using assms False by (simp add: py_slice_def Let_def min_def py_len_def)
  ultimately show ?thesis by simp
qed

lemma deal_perms_result:
  assumes "pool \<noteq> []" and "\<forall>c\<in>set cs. 0 \<le> c" and "0 \<le> cur"
    and "deal_perms pool (py_len pool) cs cur g = (perms, g')"
  shows "length perms = length cs \<and>
    (\<forall>i<length cs. \<exists>pad.
        perms ! i = take (nat (cs ! i)) (drop (nat (cur + sum_list (take i cs))) pool) @ pad
        \<and> set pad \<subseteq> set pool
        \<and> (pad \<noteq> [] \<longrightarrow> py_len pool < cur + sum_list (take i cs) + cs ! i)
        \<and> py_len (perms ! i) = cs ! i)"
  using assms(2-)
proof (induction cs arbitrary: cur g perms g')
  case Nil
  then show ?case by simp
next
  case (Cons c cs)
  have c0: "0 \<le> c" and cs0: "\<forall>c\<in>set cs. 0 \<le> c" using Cons.prems(1) by auto
  have pos: "0 < py_len pool" using assms(1) by (simp add: py_len_def)
  let ?slice = "take (nat c) (drop (nat cur) pool)"
  obtain pp g1 where pd: "pad_perm pool (py_len pool) ?slice c g = (pp, g1)"
    by (cases "pad_perm pool (py_len pool) ?slice c g")
  obtain rest g2 where dl: "deal_perms pool (py_len pool) cs (cur + c) g1 = (rest, g2)"
    by (cases "deal_perms pool (py_len pool) cs (cur + c) g1")
  have perms: "perms = pp # rest"
    using Cons.prems(3) pd dl py_slice_take_drop[OF Cons.prems(2) c0, of pool]
    by (simp add: Let_def)
  from pad_perm_result[OF assms(1) pos pd]
  obtain pad where pad: "pp = ?slice @ pad" "set pad \<subseteq> set pool"
    "pad \<noteq> [] \<longrightarrow> py_len ?slice < c" "py_len ?slice \<le> c \<longrightarrow> py_len pp = c" by blast
  have sl: "py_len ?slice \<le> c" using c0 by (simp add: py_len_def)
  have short: "pad \<noteq> [] \<longrightarrow> py_len pool < cur + c"
  proof
    assume "pad \<noteq> []"
    with pad(3) have "py_len ?slice < c" by simp
    then show "py_len pool < cur + c"
      using c0 Cons.prems(2) by (auto simp: py_len_def min_def split: if_splits)
  qed
  have "0 \<le> cur + c" using c0 Cons.prems(2) by simp
  from Cons.IH[OF cs0 this dl]
  have len: "length rest = length cs"
    and ih: "\<forall>i<length cs. \<exists>pad.
        rest ! i = take (nat (cs ! i)) (drop (nat (cur + c + sum_list (take i cs))) pool) @ pad
        \<and> set pad \<subseteq> set pool
        \<and> (pad \<noteq> [] \<longrightarrow> py_len pool < cur + c + sum_list (take i cs) + cs ! i)
        \<and> py_len (rest ! i) = cs ! i" by auto
  show ?case
  proof (intro conjI allI impI)
    show "length perms = length (c # cs)" using perms len by simp
  next
    fix i assume i: "i < length (c # cs)"
    show "\<exists>pad. perms ! i =
        take (nat ((c # cs) ! i)) (drop (nat (cur + sum_list (take i (c # cs)))) pool) @ pad
        \<and> set pad \<subseteq> set pool
        \<and> (pad \<noteq> [] \<longrightarrow> py_len pool < cur + sum_list (take i (c # cs)) + (c # cs) ! i)
        \<and> py_len (perms ! i) = (c # cs) ! i"
    proof (cases i)
      case 0
      with perms pad sl short show ?thesis by auto
    next
      case (Suc j)
      with i have "j < length cs" by simp
      with ih obtain pad' where
        "rest ! j = take (nat (cs ! j)) (drop (nat (cur + c + sum_list (take j cs))) pool) @ pad'"
        "set pad' \<subseteq> set pool"
        "pad' \<noteq> [] \<longrightarrow> py_len pool < cur + c + sum_list (take j cs) + cs ! j"
        "py_len (rest ! j) = cs ! j" by blast
      with Suc perms show ?thesis by (auto simp: add.assoc)
    qed
  qed
qed

text \<open>
  Claim C4. With trees and images at hand, a slot specification that fails to parse or has
  a count that is not a power of two makes \<open>init_trees\<close> return at its configuration
  error: pages, trees, permutations, locks and titles, and every other field but the
  value shown by the page-count spin box, are as before, and no random number is drawn.
  (In list mode the spin box has been set to the number of counts before the counts are
  checked.)
\<close>

theorem init_trees_invalid_config:
  assumes "pages_roots s \<noteq> []" and "image_paths s \<noteq> []" and "1 \<le> num_pages_spin s"
    and "invalid_config ext s"
  shows "\<exists>v. init_trees ext s g = (Return_config_error, s\<lparr>num_pages_spin := v\<rparr>, g)"
proof -
  from read_config_invalid[OF assms(3,4)]
  obtain v where "read_config ext s = (Inl ValueError, s\<lparr>num_pages_spin := v\<rparr>)" ..
  then have "init_trees ext s g = (Return_config_error, s\<lparr>num_pages_spin := v\<rparr>, g)"
    using assms(1,2) by (simp add: init_trees_def py_len_def fallback_counts_def)
  then show ?thesis ..
qed

theorem init_trees_invalid_config_witness:
  "pages_roots (album4\<lparr>page_config_edit := ''3''\<rparr>) \<noteq> []
   \<and> image_paths (album4\<lparr>page_config_edit := ''3''\<rparr>) \<noteq> []
   \<and> 1 \<le> num_pages_spin (album4\<lparr>page_config_edit := ''3''\<rparr>)
   \<and> invalid_config model_externals (album4\<lparr>page_config_edit := ''3''\<rparr>)
   \<and> (\<exists>v. init_trees model_externals (album4\<lparr>page_config_edit := ''3''\<rparr>) rng0 =
         (Return_config_error, album4\<lparr>page_config_edit := ''3'', num_pages_spin := v\<rparr>, rng0))"
proof -
  have h: "pages_roots (album4\<lparr>page_config_edit := ''3''\<rparr>) \<noteq> []"
    "image_paths (album4\<lparr>page_config_edit := ''3''\<rparr>) \<noteq> []"
    "1 \<le> num_pages_spin (album4\<lparr>page_config_edit := ''3''\<rparr>)"
    by (simp_all add: album4_def)
  have i: "invalid_config model_externals (album4\<lparr>page_config_edit := ''3''\<rparr>)"
    by code_simp
  from init_trees_invalid_config[OF h i, of rng0] h i show ?thesis by simp
qed

text \<open>
  Claim C9. After a reconfiguration that ran to its end, with a \<open>build_full_tree\<close> that
  builds the requested number of leaves: every page's permutation is as long as the page
  has leaves; there is one shuffle of all image indices such that page \<open>i\<close> holds the run
  of the shuffled pool that starts after the slots of the earlier pages and is as long as
  the page, followed by padding; the padding is drawn from the pool, and it is not empty
  only where the pool ends before the page does.
\<close>

theorem init_trees_permutations:
  assumes "builds_requested_leaves ext" and "init_trees ext s g = (Return_end, s', g')"
  shows "length (pages_perms s') = length (pages_roots s')
    \<and> (\<forall>i<length (pages_roots s').
          py_len (pages_perms s' ! i) = leaf_count ext (pages_roots s' ! i))
    \<and> (\<exists>pool_indices. mset pool_indices = mset (map int [0..<length (image_paths s)])
        \<and> (\<forall>i<length (pages_roots s'). \<exists>pad.
             pages_perms s' ! i =
               take (nat (leaf_count ext (pages_roots s' ! i)))
                 (drop (nat (slots_before ext (pages_roots s') i)) pool_indices) @ pad
             \<and> set pad \<subseteq> set pool_indices
             \<and> (pad \<noteq> [] \<longrightarrow> py_len (image_paths s)
                   < slots_before ext (pages_roots s') i + leaf_count ext (pages_roots s' ! i))))"
proof -
  from init_trees_end[OF assms(2)]
  obtain cs pool g1 where ne: "image_paths s \<noteq> []"
    and bt: "build_trees ext cs 0 = Inr (pages_roots s')"
    and sh: "random_shuffle (map int [0..<length (image_paths s)]) g = (pool, g1)"
    and dl: "deal_perms pool (py_len (image_paths s)) cs 0 g1 = (pages_perms s', g')"
    by blast
  have cs: "cs = map (leaf_count ext) (pages_roots s')"
    using assms(1) bt by (rule build_trees_counts)
  have ms: "mset pool = mset (map int [0..<length (image_paths s)])"
    using sh by (rule random_shuffle_mset)
  then have "length pool = length (map int [0..<length (image_paths s)])"
    by (rule mset_eq_length)
  then have lp: "py_len pool = py_len (image_paths s)" by (simp add: py_len_def)
  with ne have pne: "pool \<noteq> []" by (auto simp: py_len_def)
  have nonneg: "\<forall>c\<in>set cs. 0 \<le> c" unfolding cs by (auto simp: leaf_count_def py_len_def)
  from dl lp have dl': "deal_perms pool (py_len pool) cs 0 g1 = (pages_perms s', g')" by simp
  from deal_perms_result[OF pne nonneg _ dl']
  have len: "length (pages_perms s') = length cs"
    and el: "\<forall>i<length cs. \<exists>pad.
        pages_perms s' ! i = take (nat (cs ! i)) (drop (nat (0 + sum_list (take i cs))) pool) @ pad
        \<and> set pad \<subseteq> set pool
        \<and> (pad \<noteq> [] \<longrightarrow> py_len pool < 0 + sum_list (take i cs) + cs ! i)
        \<and> py_len (pages_perms s' ! i) = cs ! i" by auto
  have off: "sum_list (take i cs) = slots_before ext (pages_roots s') i" for i
    by (simp add: cs slots_before_def take_map)
  have a: "length (pages_perms s') = length (pages_roots s')" using len cs by simp
  have b: "\<forall>i<length (pages_roots s').
          py_len (pages_perms s' ! i) = leaf_count ext (pages_roots s' ! i)"
    using el cs by auto
  have c: "\<forall>i<length (pages_roots s'). \<exists>pad.
             pages_perms s' ! i =
               take (nat (leaf_count ext (pages_roots s' ! i)))
                 (drop (nat (slots_before ext (pages_roots s') i)) pool) @ pad
             \<and> set pad \<subseteq> set pool
             \<and> (pad \<noteq> [] \<longrightarrow> py_len (image_paths s)
                   < slots_before ext (pages_roots s') i + leaf_count ext (pages_roots s' ! i))"
  proof (intro allI impI)
    fix i assume i: "i < length (pages_roots s')"
    then have "i < length cs" using cs by simp
    with el obtain pad where
      "pages_perms s' ! i = take (nat (cs ! i)) (drop (nat (0 + sum_list (take i cs))) pool) @ pad"
      "set pad \<subseteq> set pool"
      "pad \<noteq> [] \<longrightarrow> py_len pool < 0 + sum_list (take i cs) + cs ! i" by blast
    moreover have "cs ! i = leaf_count ext (pages_roots s' ! i)" using i cs by simp
    ultimately show "\<exists>pad. pages_perms s' ! i =
               take (nat (leaf_count ext (pages_roots s' ! i)))
                 (drop (nat (slots_before ext (pages_roots s') i)) pool) @ pad
             \<and> set pad \<subseteq> set pool
             \<and> (pad \<noteq> [] \<longrightarrow> py_len (image_paths s)
                   < slots_before ext (pages_roots s') i + leaf_count ext (pages_roots s' ! i))"
      using off[of i] lp by auto
  qed
  from a b ms c show ?thesis by blast
qed

text \<open>
  Claim C5, as amended. After a reconfiguration that ran to its end: if the number of
  pages is the number of lock dictionaries there were, every lock whose leaf id is below
  its page's new leaf count is kept and every other lock is dropped; if the number of
  pages changed, every page's locks are empty.
\<close>

theorem init_trees_locks_kept_or_reset:
  assumes "builds_requested_leaves ext" and "init_trees ext s g = (Return_end, s', g')"
  shows "length (pages_locks s') = length (pages_roots s')
     \<and> (if length (pages_locks s) = length (pages_roots s')
        then \<forall>i<length (pages_roots s'). pages_locks s' ! i =
               filter (\<lambda>(leaf_id, img_idx). leaf_id < leaf_count ext (pages_roots s' ! i))
                 (pages_locks s ! i)
        else \<forall>i<length (pages_roots s'). pages_locks s' ! i = [])"
proof -
  from init_trees_end[OF assms(2)]
  obtain cs where bt: "build_trees ext cs 0 = Inr (pages_roots s')"
    and lk: "pages_locks s' =
          (if length (pages_locks s) \<noteq> length cs
           then replicate (length cs) []
           else map (\<lambda>(locks, limit). clear_locks locks limit) (zip (pages_locks s) cs))"
    by blast
  have cs: "cs = map (leaf_count ext) (pages_roots s')"
    using assms(1) bt by (rule build_trees_counts)
  then have len: "length cs = length (pages_roots s')" by simp
  show ?thesis
  proof (cases "length (pages_locks s) = length (pages_roots s')")
    case True
    with lk len have eq: "pages_locks s' =
        map (\<lambda>(locks, limit). clear_locks locks limit) (zip (pages_locks s) cs)" by simp
    have "\<forall>i<length (pages_roots s'). pages_locks s' ! i =
               filter (\<lambda>(leaf_id, img_idx). leaf_id < leaf_count ext (pages_roots s' ! i))
                 (pages_locks s ! i)"
      using True len cs by (simp add: eq clear_locks_filter)
    moreover have "length (pages_locks s') = length (pages_roots s')"
      using True len by (simp add: eq)
    ultimately show ?thesis using True by simp
  next
    case False
    with lk len have "pages_locks s' = replicate (length (pages_roots s')) []" by simp
    with False show ?thesis by simp
  qed
qed

text \<open>
  Six slots for five images: the second page gets the last image of the pool and one
  padded pick.
\<close>

theorem init_trees_permutations_witness:
  "builds_requested_leaves model_externals
   \<and> (\<exists>s' g'. init_trees model_externals (album4\<lparr>page_config_edit := ''4,2''\<rparr>) rng0
                 = (Return_end, s', g')
        \<and> length (pages_perms s') = length (pages_roots s')
        \<and> pages_perms s' = [[1, 2, 3, 4], [0, 1]])"
proof -
  let ?r = "init_trees model_externals (album4\<lparr>page_config_edit := ''4,2''\<rparr>) rng0"
  obtain s' g' where r: "?r = (fst ?r, s', g')" by (metis prod.collapse)
  have "fst ?r = Return_end" by code_simp
  with r have run: "?r = (Return_end, s', g')" by simp
  have "pages_perms (fst (snd ?r)) = [[1, 2, 3, 4], [0, 1]]" by code_simp
  with run have p: "pages_perms s' = [[1, 2, 3, 4], [0, 1]]" by simp
  from init_trees_permutations[OF model_builds_requested_leaves run]
  have "length (pages_perms s') = length (pages_roots s')" by blast
  with run p model_builds_requested_leaves show ?thesis by blast
qed

text \<open>One page before and after: the lock on leaf 0 stays when the page shrinks to two leaves.\<close>

theorem init_trees_locks_kept_or_reset_witness:
  "builds_requested_leaves model_externals
   \<and> (\<exists>s' g'. init_trees model_externals (album4\<lparr>page_config_edit := ''2''\<rparr>) rng0
                 = (Return_end, s', g')
        \<and> length (pages_locks s') = length (pages_roots s')
        \<and> pages_locks s' = [[(0, 0)]])"
proof -
  let ?r = "init_trees model_externals (album4\<lparr>page_config_edit := ''2''\<rparr>) rng0"
  obtain s' g' where r: "?r = (fst ?r, s', g')" by (metis prod.collapse)
  have "fst ?r = Return_end" by code_simp
  with r have run: "?r = (Return_end, s', g')" by simp
  have "pages_locks (fst (snd ?r)) = [[(0, 0)]]" by code_simp
  with run have p: "pages_locks s' = [[(0, 0)]]" by simp
  from init_trees_locks_kept_or_reset[OF model_builds_requested_leaves run]
  have "length (pages_locks s') = length (pages_roots s')" by blast
  with run p model_builds_requested_leaves show ?thesis by blast
qed

text \<open>
  Claim C5 as stated fails: going from one page of four leaves to two pages of four leaves,
  page 0 still exists and leaf 0 is within its four leaves, yet the lock on it is gone.
\<close>

theorem init_trees_locks_counterexample:
  "fst (init_trees model_externals (album4\<lparr>page_config_edit := ''4,4''\<rparr>) rng0) = Return_end
   \<and> pages_locks album4 = [[(0, 0)]]
   \<and> map (leaf_count model_externals)
        (pages_roots (fst (snd (init_trees model_externals
           (album4\<lparr>page_config_edit := ''4,4''\<rparr>) rng0)))) = [4, 4]
   \<and> pages_locks (fst (snd (init_trees model_externals
           (album4\<lparr>page_config_edit := ''4,4''\<rparr>) rng0))) = [[], []]"
  by code_simp

section \<open>Facts about start\_optimization\<close>

lemma random_randint_range:
  "random_randint 0 1000000 g = (seed, g1) \<Longrightarrow> 0 \<le> seed \<and> seed \<le> 1000000"
  using randbelow_less[of 1000001 g]
  by (auto simp: random_randint_def split: prod.splits)

lemma rebuild_trees_Inr:
  "rebuild_trees ext cs g = Inr (roots, g') \<Longrightarrow>
   length roots = length cs \<and>
   (\<forall>j<length cs. \<exists>seed tree. 0 \<le> seed \<and> seed \<le> 1000000
       \<and> build_full_tree ext (cs ! j) seed = Some tree \<and> roots ! j = Some tree)"
proof (induction cs arbitrary: g roots)
  case Nil
  then show ?case by simp
next
  case (Cons c cs)
  obtain seed g1 where rr: "random_randint 0 1000000 g = (seed, g1)"
    by (cases "random_randint 0 1000000 g")
  from Cons.prems rr obtain tree roots' where t: "build_full_tree ext c seed = Some tree"
    and r: "rebuild_trees ext cs g1 = Inr (roots', g')" and eq: "roots = Some tree # roots'"
    by (auto split: option.splits sum.splits)
  from Cons.IH[OF r] have len: "length roots' = length cs"
    and ih: "\<forall>j<length cs. \<exists>seed tree. 0 \<le> seed \<and> seed \<le> 1000000
       \<and> build_full_tree ext (cs ! j) seed = Some tree \<and> roots' ! j = Some tree" by auto
  from random_randint_range[OF rr] have sd: "0 \<le> seed \<and> seed \<le> 1000000" .
  show ?case
  proof (intro conjI allI impI)
    show "length roots = length (c # cs)" using len eq by simp
  next
    fix j assume "j < length (c # cs)"
    then show "\<exists>seed tree. 0 \<le> seed \<and> seed \<le> 1000000
       \<and> build_full_tree ext ((c # cs) ! j) seed = Some tree \<and> roots ! j = Some tree"
      using t ih eq sd by (cases j) auto
  qed
qed

lemma start_optimization_warns:
  assumes pages: "pages_roots s \<noteq> []" "pages_perms s \<noteq> []"
    and step: "if has_locks ext (pages_roots s) then roots' = pages_roots s \<and> g' = g
       else rebuild_trees ext (map (leaf_count ext) (pages_roots s)) g = Inr (roots', g')"
    and bad: "total_needed ext s < int (card (mandatory_indices s))
       \<or> int (card (mandatory_indices s)) + py_len (optional_indices s) < total_needed ext s"
  shows "start_optimization ext s g =
     Inr (if total_needed ext s < int (card (mandatory_indices s))
          then Warning_too_many_mandatory else Warning_not_enough_images,
          s\<lparr>pages_roots := roots'\<rparr>, g')"
proof -
  have m: "mandatory_indices (s\<lparr>pages_roots := roots'\<rparr>) = mandatory_indices s"
    "optional_indices (s\<lparr>pages_roots := roots'\<rparr>) = optional_indices s"
    by (simp_all add: mandatory_indices_def optional_indices_def locked_indices_def)
  show ?thesis
  proof (cases "has_locks ext (pages_roots s)")
    case True
    with step have "roots' = pages_roots s" "g' = g" by simp_all
    then have same: "s\<lparr>pages_roots := roots'\<rparr> = s" by simp
    show ?thesis
      unfolding same using pages True bad \<open>g' = g\<close>
      by (auto simp: start_optimization_def Let_def total_needed_def)
  next
    case False
    with step have "rebuild_trees ext (map (leaf_count ext) (pages_roots s)) g = Inr (roots', g')"
      by simp
    then show ?thesis
      using pages False bad m
      by (auto simp: start_optimization_def Let_def total_needed_def)
  qed
qed

lemma start_optimization_started:
  assumes "start_optimization ext s g = Inr (Worker_started, s', g')"
  shows "\<exists>args. worker s' = Some args \<and> w_pages_roots args = pages_roots s'
     \<and> pages_locks s' = pages_locks s
     \<and> (if has_locks ext (pages_roots s) then pages_roots s' = pages_roots s \<and> g' = g
         else rebuild_trees ext (map (leaf_count ext) (pages_roots s)) g
                = Inr (pages_roots s', g'))"
proof -
  have pages: "\<not> (pages_roots s = [] \<or> pages_perms s = [])"
    using assms by (auto simp: start_optimization_def)
  show ?thesis
  proof (cases "has_locks ext (pages_roots s)")
    case True
    with assms pages obtain args where
      "dispatch ext s (map (leaf_count ext) (pages_roots s)) = Inr args"
      "s' = s\<lparr>worker := Some args, optimize_btn := False\<rparr>" "g' = g"
      by (auto simp: start_optimization_def Let_def split: if_splits sum.splits)
    moreover from this(1) have "w_pages_roots args = pages_roots s"
      by (auto simp: dispatch_def Let_def split: if_splits)
    ultimately show ?thesis using True by auto
  next
    case False
    with assms pages obtain roots1 g1 args where
      rb: "rebuild_trees ext (map (leaf_count ext) (pages_roots s)) g = Inr (roots1, g1)"
      and d: "dispatch ext (s\<lparr>pages_roots := roots1\<rparr>) (map (leaf_count ext) (pages_roots s))
           = Inr args"
      and s': "s' = s\<lparr>pages_roots := roots1, worker := Some args, optimize_btn := False\<rparr>"
      and g': "g' = g1"
      by (auto simp: start_optimization_def Let_def split: if_splits sum.splits)
    from d have "w_pages_roots args = roots1"
      by (auto simp: dispatch_def Let_def split: if_splits)
    with rb s' g' False show ?thesis by auto
  qed
qed

lemma start_optimization_infeasible_pages:
  assumes "pages_roots s \<noteq> []" and "pages_perms s \<noteq> []"
    and "has_locks ext (pages_roots s)
       \<or> (\<exists>roots g1. rebuild_trees ext (map (leaf_count ext) (pages_roots s)) g = Inr (roots, g1))"
    and "total_needed ext s < int (card (mandatory_indices s))
       \<or> int (card (mandatory_indices s)) + py_len (optional_indices s) < total_needed ext s"
  shows "\<exists>roots' g'. start_optimization ext s g =
       Inr (if total_needed ext s < int (card (mandatory_indices s))
            then Warning_too_many_mandatory else Warning_not_enough_images,
            s\<lparr>pages_roots := roots'\<rparr>, g')
     \<and> worker (s\<lparr>pages_roots := roots'\<rparr>) = worker s
     \<and> pages_perms (s\<lparr>pages_roots := roots'\<rparr>) = pages_perms s
     \<and> pages_locks (s\<lparr>pages_roots := roots'\<rparr>) = pages_locks s
     \<and> (has_locks ext (pages_roots s) \<longrightarrow> s\<lparr>pages_roots := roots'\<rparr> = s \<and> g' = g)"
proof (cases "has_locks ext (pages_roots s)")
  case True
  then have "if has_locks ext (pages_roots s) then pages_roots s = pages_roots s \<and> g = g
       else rebuild_trees ext (map (leaf_count ext) (pages_roots s)) g = Inr (pages_roots s, g)"
    by simp
  from start_optimization_warns[OF assms(1,2) this assms(4)]
  show ?thesis by (intro exI[of _ "pages_roots s"] exI[of _ g]) simp
next
  case False
  with assms(3) obtain roots g1 where
    rb: "rebuild_trees ext (map (leaf_count ext) (pages_roots s)) g = Inr (roots, g1)" by blast
  with False have "if has_locks ext (pages_roots s) then roots = pages_roots s \<and> g1 = g
       else rebuild_trees ext (map (leaf_count ext) (pages_roots s)) g = Inr (roots, g1)"
    by simp
  from start_optimization_warns[OF assms(1,2) this assms(4)] False
  show ?thesis by (intro exI[of _ roots] exI[of _ g1]) simp
qed


text \<open>
  Claim C3, as amended. With no pages \<open>start_optimization\<close> returns at once: no warning,
  no worker, the state and the random generator as they were. In a state that has pages,
  and in which the rebuilding of the trees that precedes the validation either does not
  take place (some tree has a locked internal node) or does not raise AssertionError: if
  the mandatory images (locked or flagged mandatory) outnumber the slots, the warning for
  too many mandatory images is shown, and if mandatory and optional images together are
  fewer than the slots, the warning for not enough images; in both cases no worker is
  started and permutations, locks and every other field than the trees are unchanged. When
  some tree has a locked internal node the trees and the random generator are unchanged as
  well.
\<close>

theorem start_optimization_infeasible:
  "(pages_roots s = [] \<or> pages_perms s = []
      \<longrightarrow> start_optimization ext s g = Inr (Return_no_pages, s, g))
   \<and> (pages_roots s \<noteq> [] \<and> pages_perms s \<noteq> []
       \<and> (has_locks ext (pages_roots s)
            \<or> (\<exists>roots g1. rebuild_trees ext (map (leaf_count ext) (pages_roots s)) g
                    = Inr (roots, g1)))
       \<and> (total_needed ext s < int (card (mandatory_indices s))
            \<or> int (card (mandatory_indices s)) + py_len (optional_indices s)
                 < total_needed ext s)
      \<longrightarrow> (\<exists>roots' g'. start_optimization ext s g =
             Inr (if total_needed ext s < int (card (mandatory_indices s))
                  then Warning_too_many_mandatory else Warning_not_enough_images,
                  s\<lparr>pages_roots := roots'\<rparr>, g')
           \<and> worker (s\<lparr>pages_roots := roots'\<rparr>) = worker s
           \<and> pages_perms (s\<lparr>pages_roots := roots'\<rparr>) = pages_perms s
           \<and> pages_locks (s\<lparr>pages_roots := roots'\<rparr>) = pages_locks s
           \<and> (has_locks ext (pages_roots s)
                \<longrightarrow> s\<lparr>pages_roots := roots'\<rparr> = s \<and> g' = g)))"
proof (intro conjI impI)
  assume "pages_roots s = [] \<or> pages_perms s = []"
  then show "start_optimization ext s g = Inr (Return_no_pages, s, g)"
    by (simp add: start_optimization_def)
next
  assume h: "pages_roots s \<noteq> [] \<and> pages_perms s \<noteq> []
       \<and> (has_locks ext (pages_roots s)
            \<or> (\<exists>roots g1. rebuild_trees ext (map (leaf_count ext) (pages_roots s)) g
                    = Inr (roots, g1)))
       \<and> (total_needed ext s < int (card (mandatory_indices s))
            \<or> int (card (mandatory_indices s)) + py_len (optional_indices s)
                 < total_needed ext s)"
  then have "pages_roots s \<noteq> []" "pages_perms s \<noteq> []"
    "has_locks ext (pages_roots s)
       \<or> (\<exists>roots g1. rebuild_trees ext (map (leaf_count ext) (pages_roots s)) g = Inr (roots, g1))"
    "total_needed ext s < int (card (mandatory_indices s))
       \<or> int (card (mandatory_indices s)) + py_len (optional_indices s) < total_needed ext s"
    by blast+
  then show "\<exists>roots' g'. start_optimization ext s g =
             Inr (if total_needed ext s < int (card (mandatory_indices s))
                  then Warning_too_many_mandatory else Warning_not_enough_images,
                  s\<lparr>pages_roots := roots'\<rparr>, g')
           \<and> worker (s\<lparr>pages_roots := roots'\<rparr>) = worker s
           \<and> pages_perms (s\<lparr>pages_roots := roots'\<rparr>) = pages_perms s
           \<and> pages_locks (s\<lparr>pages_roots := roots'\<rparr>) = pages_locks s
           \<and> (has_locks ext (pages_roots s)
                \<longrightarrow> s\<lparr>pages_roots := roots'\<rparr> = s \<and> g' = g)"
    by (rule start_optimization_infeasible_pages)
qed

text \<open>
  Claim C3 as stated fails twice. With no pages and five mandatory images the method
  returns at once and warns of nothing. With one page of four leaves, five mandatory
  images and no locked tree node, the warning is shown after the tree has been replaced by
  a newly built one.
\<close>

theorem start_optimization_infeasible_counterexample:
  "int (card (mandatory_indices (no_pages (all_mandatory album4)))) = 5
   \<and> total_needed model_externals (no_pages (all_mandatory album4)) = 0
   \<and> outcome (start_optimization model_externals (no_pages (all_mandatory album4)) rng0)
       = Inr (Return_no_pages, [], [])
   \<and> int (card (mandatory_indices (all_mandatory album_chain))) = 5
   \<and> total_needed model_externals (all_mandatory album_chain) = 4
   \<and> pages_roots (all_mandatory album_chain) = [Some chain4]
   \<and> outcome (start_optimization model_externals (all_mandatory album_chain) rng0)
       = Inr (Warning_too_many_mandatory, [Some (full_tree 2 0 0)], [[(0, 0)]])
   \<and> full_tree 2 0 0 \<noteq> chain4"
  by code_simp

theorem start_optimization_infeasible_witness:
  "pages_roots (no_pages (all_mandatory album4)) = []
   \<and> start_optimization model_externals (no_pages (all_mandatory album4)) rng0
       = Inr (Return_no_pages, no_pages (all_mandatory album4), rng0)
   \<and> pages_roots (all_mandatory album4) \<noteq> [] \<and> pages_perms (all_mandatory album4) \<noteq> []
   \<and> (\<exists>roots g1. rebuild_trees model_externals
          (map (leaf_count model_externals) (pages_roots (all_mandatory album4))) rng0
        = Inr (roots, g1))
   \<and> total_needed model_externals (all_mandatory album4)
        < int (card (mandatory_indices (all_mandatory album4)))
   \<and> (\<exists>roots' g'. start_optimization model_externals (all_mandatory album4) rng0 =
         Inr (Warning_too_many_mandatory, (all_mandatory album4)\<lparr>pages_roots := roots'\<rparr>, g'))"
proof -
  let ?s = "all_mandatory album4" and ?e = "no_pages (all_mandatory album4)"
  have e: "pages_roots ?e = []" by (simp add: no_pages_def)
  from start_optimization_infeasible[of ?e model_externals rng0] e
  have none: "start_optimization model_externals ?e rng0 = Inr (Return_no_pages, ?e, rng0)"
    by blast
  have p: "pages_roots ?s \<noteq> []" "pages_perms ?s \<noteq> []"
    by (simp_all add: all_mandatory_def album4_def)
  have ok: "map_sum id (\<lambda>x. ()) (rebuild_trees model_externals
          (map (leaf_count model_externals) (pages_roots ?s)) rng0) = Inr ()"
    by code_simp
  then have rb: "\<exists>roots g1. rebuild_trees model_externals
          (map (leaf_count model_externals) (pages_roots ?s)) rng0 = Inr (roots, g1)"
    by (cases "rebuild_trees model_externals
          (map (leaf_count model_externals) (pages_roots ?s)) rng0") auto
  have bad: "total_needed model_externals ?s < int (card (mandatory_indices ?s))"
    by code_simp
  from start_optimization_infeasible[of ?s model_externals rng0] p rb bad
  have "\<exists>roots' g'. start_optimization model_externals ?s rng0 =
         Inr (Warning_too_many_mandatory, ?s\<lparr>pages_roots := roots'\<rparr>, g')"
    by auto
  with e none p rb bad show ?thesis by blast
qed

text \<open>
  What a dispatched run does to the trees, for every choice of the external functions: the
  locks are as before and the worker gets the trees of the new state; if some tree has an
  internal node whose \<open>locked\<close> flag is set, every tree is kept; if none has, every page's
  tree is the result of \<open>build_full_tree\<close> for the page's leaf count and a seed between 0
  and 1000000. The lock dictionaries play no part in the choice.
\<close>

lemma start_optimization_dispatched_trees:
  assumes "start_optimization ext s g = Inr (Worker_started, s', g')"
  shows "pages_locks s' = pages_locks s
     \<and> (\<exists>args. worker s' = Some args \<and> w_pages_roots args = pages_roots s')
     \<and> (has_locks ext (pages_roots s) \<longrightarrow> pages_roots s' = pages_roots s)
     \<and> (\<not> has_locks ext (pages_roots s) \<longrightarrow>
          length (pages_roots s') = length (pages_roots s)
          \<and> (\<forall>i<length (pages_roots s). \<exists>seed tree. 0 \<le> seed \<and> seed \<le> 1000000
                \<and> build_full_tree ext (leaf_count ext (pages_roots s ! i)) seed = Some tree
                \<and> pages_roots s' ! i = Some tree))"
proof -
  from start_optimization_started[OF assms]
  obtain args where a: "worker s' = Some args" "w_pages_roots args = pages_roots s'"
    "pages_locks s' = pages_locks s"
    and st: "if has_locks ext (pages_roots s) then pages_roots s' = pages_roots s \<and> g' = g
         else rebuild_trees ext (map (leaf_count ext) (pages_roots s)) g
                = Inr (pages_roots s', g')" by blast
  have "\<not> has_locks ext (pages_roots s) \<longrightarrow>
          length (pages_roots s') = length (pages_roots s)
          \<and> (\<forall>i<length (pages_roots s). \<exists>seed tree. 0 \<le> seed \<and> seed \<le> 1000000
                \<and> build_full_tree ext (leaf_count ext (pages_roots s ! i)) seed = Some tree
                \<and> pages_roots s' ! i = Some tree)"
  proof
    assume "\<not> has_locks ext (pages_roots s)"
    with st have "rebuild_trees ext (map (leaf_count ext) (pages_roots s)) g
                = Inr (pages_roots s', g')" by simp
    from rebuild_trees_Inr[OF this]
    show "length (pages_roots s') = length (pages_roots s)
          \<and> (\<forall>i<length (pages_roots s). \<exists>seed tree. 0 \<le> seed \<and> seed \<le> 1000000
                \<and> build_full_tree ext (leaf_count ext (pages_roots s ! i)) seed = Some tree
                \<and> pages_roots s' ! i = Some tree)"
      by auto
  qed
  with a st show ?thesis by (auto split: if_splits)
qed

text \<open>
  Claim C6. The claim asks that a page with a lock keeps all trees. The code does not do
  so. In \<open>album4_dropped\<close>, the state reached by \<open>init_trees\<close> and a drop of image 0 on
  leaf 0, page 0 has the lock \<open>{0: 0}\<close> and no tree node is flagged locked; the run is
  dispatched, the locks are as before, and the tree of the page is the one newly built
  with the drawn seed 1, not the tree the page had. The same happens to a page whose tree
  no call of \<open>build_full_tree\<close> returns.
\<close>

theorem start_optimization_rebuilds_locked_page:
  "pages_locks album4_dropped = [[(0, 0)]]
   \<and> pages_roots album4_dropped = [Some (full_tree 2 0 42)]
   \<and> has_locks model_externals (pages_roots album4_dropped) = False
   \<and> outcome (start_optimization model_externals album4_dropped rng1)
       = Inr (Worker_started, [Some (full_tree 2 0 1)], [[(0, 0)]])
   \<and> full_tree 2 0 1 \<noteq> full_tree 2 0 42
   \<and> pages_locks album_chain = [[(0, 0)]]
   \<and> pages_roots album_chain = [Some chain4]
   \<and> outcome (start_optimization model_externals album_chain rng0)
       = Inr (Worker_started, [Some (full_tree 2 0 0)], [[(0, 0)]])
   \<and> full_tree 2 0 0 \<noteq> chain4"
  by code_simp

lemma start_optimization_dispatched_trees_example:
  "\<exists>s' g'. start_optimization model_externals album4 rng0 = Inr (Worker_started, s', g')
     \<and> pages_locks s' = pages_locks album4
     \<and> length (pages_roots s') = length (pages_roots album4)"
proof -
  let ?r = "start_optimization model_externals album4 rng0"
  have o: "map_sum id fst ?r = Inr Worker_started" by code_simp
  then obtain s' g' where run: "?r = Inr (Worker_started, s', g')"
    by (cases ?r) auto
  have nl: "\<not> has_locks model_externals (pages_roots album4)" by code_simp
  from start_optimization_dispatched_trees[OF run] nl
  have "pages_locks s' = pages_locks album4"
    "length (pages_roots s') = length (pages_roots album4)" by blast+
  with run show ?thesis by blast
qed

section \<open>Facts about snapshots\<close>

lemma digit_char_cases:
  assumes "d < 10"
  shows "digit_of (digit_char d) = Some d \<and> \<not> py_isspace (digit_char d)
     \<and> digit_char d \<noteq> CHR ''_'' \<and> digit_char d \<noteq> CHR ''-'' \<and> digit_char d \<noteq> CHR ''+''"
proof -
  have "list_all (\<lambda>d. digit_of (digit_char d) = Some d \<and> \<not> py_isspace (digit_char d)
     \<and> digit_char d \<noteq> CHR ''_'' \<and> digit_char d \<noteq> CHR ''-'' \<and> digit_char d \<noteq> CHR ''+'')
     [0..<10]"
    by code_simp
  moreover have "d \<in> set [0..<10]" using assms by simp
  ultimately show ?thesis unfolding list_all_iff by blast
qed

lemma py_digits_digit:
  assumes "digit_of c = Some d"
  shows "py_digits (c # cs) acc = py_digits cs (10 * acc + d)"
proof -
  have nu: "c \<noteq> CHR ''_''" using assms by (auto simp: digit_of_def)
  show ?thesis
  proof (cases cs)
    case Nil
    with assms show ?thesis by simp
  next
    case (Cons c' cs')
    with assms nu show ?thesis by simp
  qed
qed

lemma py_digits_snoc:
  assumes "\<forall>c\<in>set cs. digit_of c \<noteq> None" and "digit_of c = Some d"
  shows "py_digits (cs @ [c]) acc = map_option (\<lambda>a. 10 * a + d) (py_digits cs acc)"
  using assms(1)
proof (induction cs arbitrary: acc)
  case Nil
  with assms(2) show ?case by simp
next
  case (Cons x xs)
  then obtain dx where dx: "digit_of x = Some dx" by auto
  have "py_digits ((x # xs) @ [c]) acc = py_digits (xs @ [c]) (10 * acc + dx)"
    using py_digits_digit[OF dx] by simp
  also have "\<dots> = map_option (\<lambda>a. 10 * a + d) (py_digits xs (10 * acc + dx))"
    using Cons by simp
  also have "py_digits xs (10 * acc + dx) = py_digits (x # xs) acc"
    using py_digits_digit[OF dx] by simp
  finally show ?case .
qed

lemma str_nat_digits: "str_nat n \<noteq> [] \<and> (\<forall>c\<in>set (str_nat n). digit_of c \<noteq> None \<and> \<not> py_isspace c
    \<and> c \<noteq> CHR ''-'' \<and> c \<noteq> CHR ''+'')"
proof (induction n rule: str_nat.induct)
  case (1 n)
  show ?case
  proof (cases "n < 10")
    case True
    with digit_char_cases[of n] show ?thesis by (simp add: str_nat.simps[of n])
  next
    case False
    have "n mod 10 < 10" by simp
    from digit_char_cases[OF this] "1.IH"[OF False] False
    show ?thesis by (simp add: str_nat.simps[of n])
  qed
qed

lemma py_nat_literal_str_nat: "py_nat_literal (str_nat n) = Some n"
proof (induction n rule: str_nat.induct)
  case (1 n)
  show ?case
  proof (cases "n < 10")
    case True
    with digit_char_cases[of n] show ?thesis
      by (simp add: str_nat.simps[of n] py_nat_literal_def)
  next
    case False
    let ?xs = "str_nat (n div 10)" and ?c = "digit_char (n mod 10)"
    have m: "n mod 10 < 10" by simp
    from digit_char_cases[OF m] have dc: "digit_of ?c = Some (n mod 10)" by simp
    from str_nat_digits[of "n div 10"] obtain x xs where xs: "?xs = x # xs"
      and dig: "\<forall>c\<in>set (x # xs). digit_of c \<noteq> None" by (cases ?xs) auto
    then obtain dx where dx: "digit_of x = Some dx" by auto
    from "1.IH"[OF False] xs dx have ih: "py_digits xs dx = Some (n div 10)"
      by (simp add: py_nat_literal_def)
    have "py_nat_literal (str_nat n) = py_nat_literal ((x # xs) @ [?c])"
      using False xs by (simp add: str_nat.simps[of n])
    also have "\<dots> = py_digits (xs @ [?c]) dx" using dx by (simp add: py_nat_literal_def)
    also have "\<dots> = map_option (\<lambda>a. 10 * a + n mod 10) (py_digits xs dx)"
      using dig dc by (intro py_digits_snoc) auto
    also have "\<dots> = Some n" using ih by simp
    finally show ?thesis .
  qed
qed

lemma py_strip_id:
  assumes "s \<noteq> []" and "\<not> py_isspace (hd s)" and "\<not> py_isspace (last s)"
  shows "py_strip s = s"
proof -
  have "dropWhile py_isspace s = s" using assms(1,2) by (cases s) auto
  moreover have "dropWhile py_isspace (rev s) = rev s"
    using assms(1,3) by (cases "rev s") (auto simp: last_rev[symmetric] hd_rev)
  ultimately show ?thesis by (simp add: py_strip_def)
qed

lemma py_int_py_str: "py_int (py_str i) = Some i"
proof (cases "i < 0")
  case False
  let ?s = "str_nat (nat i)"
  from str_nat_digits[of "nat i"] have ne: "?s \<noteq> []"
    and cs: "\<forall>c\<in>set ?s. \<not> py_isspace c \<and> c \<noteq> CHR ''-'' \<and> c \<noteq> CHR ''+''" by auto
  have "py_strip ?s = ?s" using ne cs by (intro py_strip_id) auto
  moreover obtain c cs' where s: "?s = c # cs'" using ne by (cases ?s) auto
  moreover have "c \<noteq> CHR ''-''" "c \<noteq> CHR ''+''" using cs s by auto
  ultimately have "py_int ?s = map_option int (py_nat_literal ?s)"
    by (simp add: py_int_def)
  with False show ?thesis by (simp add: py_str_def py_nat_literal_str_nat)
next
  case True
  let ?s = "str_nat (nat (- i))"
  from str_nat_digits[of "nat (- i)"] have ne: "?s \<noteq> []"
    and cs: "\<forall>c\<in>set ?s. \<not> py_isspace c" by auto
  have "\<not> py_isspace (CHR ''-'')" by (simp add: py_isspace_def)
  moreover have "\<not> py_isspace (last (CHR ''-'' # ?s))" using ne cs by auto
  ultimately have "py_strip (CHR ''-'' # ?s) = CHR ''-'' # ?s" by (intro py_strip_id) auto
  then have "py_int (CHR ''-'' # ?s) = map_option (\<lambda>n. - int n) (py_nat_literal ?s)"
    by (simp add: py_int_def)
  with True show ?thesis by (simp add: py_str_def py_nat_literal_str_nat)
qed

lemma py_str_inj: "py_str i = py_str j \<Longrightarrow> i = j"
  by (metis py_int_py_str option.inject)

lemma deserialize_serialize: "deserialize_tree (serialize_tree r) = r"
  by (induction r rule: serialize_tree.induct) simp_all

lemma update_fresh: "k \<notin> fst ` set al \<Longrightarrow> AList.update k v al = al @ [(k, v)]"
  by (induction al) auto

lemma int_keys_from_int:
  "distinct (map fst (acc @ d)) \<Longrightarrow> int_keys_from (with_int_keys d) acc = Inr (acc @ d)"
proof (induction d arbitrary: acc)
  case Nil
  then show ?case by (simp add: with_int_keys_def)
next
  case (Cons p d)
  obtain k v where p: "p = (k, v)" by (cases p)
  from Cons.prems p have fresh: "k \<notin> fst ` set acc" by auto
  from Cons.prems p have "distinct (map fst ((acc @ [(k, v)]) @ d))" by auto
  from Cons.IH[OF this] have "int_keys_from (with_int_keys d) (acc @ [(k, v)]) = Inr (acc @ p # d)"
    using p by simp
  then show ?case using p update_fresh[OF fresh] by (simp add: with_int_keys_def)
qed

lemma int_keys_from_text:
  "distinct (map fst (acc @ d)) \<Longrightarrow>
   int_keys_from (map (\<lambda>(k, v). (Str_key (py_str k), v)) d) acc = Inr (acc @ d)"
proof (induction d arbitrary: acc)
  case Nil
  then show ?case by simp
next
  case (Cons p d)
  obtain k v where p: "p = (k, v)" by (cases p)
  from Cons.prems p have fresh: "k \<notin> fst ` set acc" by auto
  from Cons.prems p have "distinct (map fst ((acc @ [(k, v)]) @ d))" by auto
  from Cons.IH[OF this]
  have "int_keys_from (map (\<lambda>(k, v). (Str_key (py_str k), v)) d) (acc @ [(k, v)]) = Inr (acc @ p # d)"
    using p by simp
  then show ?case using p update_fresh[OF fresh] by (simp add: py_int_py_str)
qed

lemma json_object_fold:
  "distinct (map fst (acc @ d)) \<Longrightarrow>
   fold (\<lambda>(k, v) a. AList.update (key_text k) v a) (with_int_keys d)
        (map (\<lambda>(k, v). (Str_key (py_str k), v)) acc)
     = map (\<lambda>(k, v). (Str_key (py_str k), v)) (acc @ d)"
proof (induction d arbitrary: acc)
  case Nil
  then show ?case by (simp add: with_int_keys_def)
next
  case (Cons p d)
  obtain k v where p: "p = (k, v)" by (cases p)
  from Cons.prems p have "k \<notin> fst ` set acc" by auto
  then have fresh: "Str_key (py_str k) \<notin> fst ` set (map (\<lambda>(k, v). (Str_key (py_str k), v)) acc)"
    by (force dest: py_str_inj)
  from Cons.prems p have "distinct (map fst ((acc @ [(k, v)]) @ d))" by auto
  from Cons.IH[OF this] p update_fresh[OF fresh, of v]
  show ?case by (simp add: with_int_keys_def)
qed

lemma int_keys_roundtrip:
  assumes "distinct (map fst d)"
  shows "int_keys (with_int_keys d) = Inr d"
    and "int_keys (json_object (with_int_keys d)) = Inr d"
proof -
  show "int_keys (with_int_keys d) = Inr d"
    using int_keys_from_int[of "[]" d] assms by (simp add: int_keys_def)
  have "json_object (with_int_keys d) = map (\<lambda>(k, v). (Str_key (py_str k), v)) d"
    using json_object_fold[of "[]" d] assms by (simp add: json_object_def)
  then show "int_keys (json_object (with_int_keys d)) = Inr d"
    using int_keys_from_text[of "[]" d] assms by (simp add: int_keys_def)
qed

lemma int_keys_all_roundtrip:
  assumes "list_all (\<lambda>d. distinct (map fst d)) ds"
  shows "int_keys_all (map with_int_keys ds) = Inr ds"
    and "int_keys_all (map json_object (map with_int_keys ds)) = Inr ds"
  using assms by (induction ds) (simp_all add: int_keys_roundtrip)

lemma restore_snapshot_fields:
  assumes "int_keys_all (snap_locks data) = Inr locks"
    and "int_keys (snap_crop_states data) = Inr crop_states"
  shows "\<exists>s' g'. restore_snapshot ext data s0 g = Inr (s', g')
     \<and> pages_roots s' = map deserialize_tree (snap_trees data)
     \<and> pages_perms s' = snap_perms data \<and> pages_locks s' = locks
     \<and> image_crop_states s' = crop_states
     \<and> forced_aspect_ratios s' = set (snap_forced_aspects data)"
proof -
  let ?v = "qspin_set_value (snap_num_pages data)"
  obtain s1 g1 where st: "(if ?v \<noteq> num_pages_spin s0
            then (case init_trees ext (s0\<lparr>num_pages_spin := ?v\<rparr>) g of (r, s1, g1) \<Rightarrow> (s1, g1))
            else (s0, g)) = (s1, g1)"
    by (cases "(if ?v \<noteq> num_pages_spin s0
            then (case init_trees ext (s0\<lparr>num_pages_spin := ?v\<rparr>) g of (r, s1, g1) \<Rightarrow> (s1, g1))
            else (s0, g))")
  show ?thesis
    unfolding restore_snapshot_def Let_def st using assms by simp
qed

lemma model_lists_finite_sets: "lists_finite_sets model_externals"
  by (simp add: lists_finite_sets_def model_externals_def)

text \<open>
  Claim C7. A snapshot taken of a state and restored, into any state, whether straight
  from memory or after it has been written to a JSON file and read back, gives the trees
  (direction, ratio, leaf id, locked flag and children of every node), the permutations,
  the lock dictionary of every page with integer keys, the crop states and the set of
  forced aspects of the state the snapshot was taken of.
\<close>

theorem snapshot_round_trip:
  assumes "current_folder s \<noteq> None" and "dicts_well_formed s" and "lists_finite_sets ext"
  shows "\<exists>data. take_snapshot ext s = Some data
     \<and> (\<exists>s' g'. restore_snapshot ext data s0 g = Inr (s', g') \<and> restored_fields s s')
     \<and> (\<exists>s' g'. restore_snapshot ext (json_file data) s0 g = Inr (s', g')
            \<and> restored_fields s s')"
proof -
  let ?data = "\<lparr>snap_num_pages = num_pages_spin s,
                 snap_page_config = page_config_edit s,
                 snap_page_titles = Some (page_titles s),
                 snap_title = None,
                 snap_trees = map serialize_tree (pages_roots s),
                 snap_perms = pages_perms s,
                 snap_locks = map with_int_keys (pages_locks s),
                 snap_crop_states = with_int_keys (image_crop_states s),
                 snap_forced_aspects = list_of_set ext (forced_aspect_ratios s)\<rparr>"
  have t: "take_snapshot ext s = Some ?data" using assms(1) by (simp add: take_snapshot_def)
  have wf: "list_all (\<lambda>d. distinct (map fst d)) (pages_locks s)"
    "distinct (map fst (image_crop_states s))" "finite (forced_aspect_ratios s)"
    using assms(2) by (simp_all add: dicts_well_formed_def)
  have trees: "map deserialize_tree (map serialize_tree (pages_roots s)) = pages_roots s"
    by (simp add: deserialize_serialize map_idI)
  have forced: "set (list_of_set ext (forced_aspect_ratios s)) = forced_aspect_ratios s"
    using assms(3) wf(3) by (simp add: lists_finite_sets_def)
  have l1: "int_keys_all (snap_locks ?data) = Inr (pages_locks s)"
    and c1: "int_keys (snap_crop_states ?data) = Inr (image_crop_states s)"
    using int_keys_all_roundtrip(1)[OF wf(1)] int_keys_roundtrip(1)[OF wf(2)] by simp_all
  have l2: "int_keys_all (snap_locks (json_file ?data)) = Inr (pages_locks s)"
    and c2: "int_keys (snap_crop_states (json_file ?data)) = Inr (image_crop_states s)"
    using int_keys_all_roundtrip(2)[OF wf(1)] int_keys_roundtrip(2)[OF wf(2)]
    by (simp_all add: json_file_def)
  from restore_snapshot_fields[OF l1 c1, of ext s0 g] trees forced
  have a: "\<exists>s' g'. restore_snapshot ext ?data s0 g = Inr (s', g') \<and> restored_fields s s'"
    by (auto simp: restored_fields_def)
  from restore_snapshot_fields[OF l2 c2, of ext s0 g] trees forced
  have b: "\<exists>s' g'. restore_snapshot ext (json_file ?data) s0 g = Inr (s', g')
      \<and> restored_fields s s'"
    by (auto simp: restored_fields_def json_file_def)
  from t a b show ?thesis by blast
qed

theorem snapshot_round_trip_witness:
  "current_folder album4_dropped \<noteq> None \<and> dicts_well_formed album4_dropped
   \<and> lists_finite_sets model_externals
   \<and> (\<exists>data. take_snapshot model_externals album4_dropped = Some data
        \<and> (\<exists>s' g'. restore_snapshot model_externals (json_file data) (no_pages album4) rng0
               = Inr (s', g')
             \<and> pages_roots s' = [Some (full_tree 2 0 42)] \<and> pages_perms s' = [[0, 1, 2, 3]]
             \<and> pages_locks s' = [[(0, 0)]] \<and> image_crop_states s' = [(0, False)]
             \<and> forced_aspect_ratios s' = {0}))"
proof -
  have h: "current_folder album4_dropped \<noteq> None" "dicts_well_formed album4_dropped"
    by (simp_all add: album4_dropped_def album4_def dicts_well_formed_def)
  from snapshot_round_trip[OF h model_lists_finite_sets, of "no_pages album4" rng0]
  obtain data s' g' where d: "take_snapshot model_externals album4_dropped = Some data"
    and r: "restore_snapshot model_externals (json_file data) (no_pages album4) rng0 = Inr (s', g')"
    and f: "restored_fields album4_dropped s'" by blast
  from f have "pages_roots s' = [Some (full_tree 2 0 42)]" "pages_perms s' = [[0, 1, 2, 3]]"
    "pages_locks s' = [[(0, 0)]]" "image_crop_states s' = [(0, False)]"
    "forced_aspect_ratios s' = {0}"
    by (simp_all add: restored_fields_def album4_dropped_def album4_def)
  with d r h model_lists_finite_sets show ?thesis by blast
qed

end
